theory Spec2Isabelle
  imports Main "HOL-Library.Word"
begin

section \<open>The IWR6843 radar driver: data model\<close>

text \<open>
  The driver (\<^verbatim>\<open>Code/Radar/Radar/radar_sensor/IWR6843.cpp\<close>) keeps two vectors: the
  bytes read from the data port that are not yet consumed (\<^verbatim>\<open>dataBuffer\<close>, a
  \<^verbatim>\<open>vector<uint8_t>\<close>) and the frames decoded so far (\<^verbatim>\<open>decodedFrameBuffer\<close>, a
  \<^verbatim>\<open>vector<SensorData>\<close>). The class \<^verbatim>\<open>SensorData\<close> is declared in another file, so
  its constructor is a parameter \<open>SensorData\<close> of the operations that call it, and the
  element type of the queue is a type variable.
\<close>

type_synonym byte = "8 word"

record 'f IWR6843 =
  dataBuffer :: "byte list"
  decodedFrameBuffer :: "'f list"

text \<open>
  C++ gives no meaning to an iterator range that leaves its vector, and a loop whose
  counter wraps around never leaves. Both are outcomes of the model.
\<close>

datatype fault = OutOfRange | NoReturn

text \<open>
  One round of \<^verbatim>\<open>ioctl(fd, FIONREAD, &bytesAvailable)\<close> followed by \<^verbatim>\<open>read\<close>, as the
  operating system answers it: the query fails (\<open>FionreadError\<close>, the call returns -1),
  or it stores a count, and a \<^verbatim>\<open>read\<close> issued afterwards either fails (\<open>None\<close>, it
  returns -1) or delivers the pending bytes, of which the caller receives at most the
  number it asked for.
\<close>

datatype 'b io_event = FionreadError | Fionread nat "'b list option"

section \<open>Vector primitives\<close>

text \<open>
  The range constructor \<^verbatim>\<open>vector(v.begin() + first, v.begin() + last)\<close> and
  \<^verbatim>\<open>v.erase(v.begin() + first, v.begin() + last)\<close>. Iterators are offsets from
  \<^verbatim>\<open>begin()\<close>; a range is valid when \<open>first \<le> last \<le> size\<close>.
\<close>

definition subvector :: "'a list \<Rightarrow> nat \<Rightarrow> nat \<Rightarrow> fault + 'a list" where
  "subvector v first lst =
     (if first \<le> lst \<and> lst \<le> length v then Inr (take (lst - first) (drop first v))
      else Inl OutOfRange)"

definition erase :: "'a list \<Rightarrow> nat \<Rightarrow> nat \<Rightarrow> fault + 'a list" where
  "erase v first lst =
     (if first \<le> lst \<and> lst \<le> length v then Inr (take first v @ drop lst v)
      else Inl OutOfRange)"

section \<open>The frame boundary locator\<close>

definition pattern :: "byte list" where
  "pattern = [0x02, 0x01, 0x04, 0x03, 0x06, 0x05, 0x08, 0x07]"

text \<open>
  \<^verbatim>\<open>std::search(first, last, p_first, p_last)\<close> on the elements from \<^verbatim>\<open>first\<close> on: the
  offset of the first occurrence of the pattern, or the offset of \<^verbatim>\<open>last\<close> when there
  is none.
\<close>

fun search_off :: "'a list \<Rightarrow> 'a list \<Rightarrow> nat" where
  "search_off [] pat = 0"
| "search_off (x # xs) pat =
     (if take (length pat) (x # xs) = pat then 0 else Suc (search_off xs pat))"

definition search :: "'a list \<Rightarrow> nat \<Rightarrow> 'a list \<Rightarrow> nat" where
  "search buf it pat =
     (if it \<le> length buf then it + search_off (drop it buf) pat else length buf)"

text \<open>
  The loop of \<^verbatim>\<open>findIndexesOfMagicWord\<close>:
  \<^verbatim>\<open>while ((it = search(it, end, ...)) != end) { indexes.push_back(it - begin); ++it; }\<close>
\<close>

function find_loop :: "byte list \<Rightarrow> nat \<Rightarrow> nat list \<Rightarrow> nat list" where
  "find_loop buf it indexes =
     (let it' = search buf it pattern
      in if it' \<noteq> length buf then find_loop buf (it' + 1) (indexes @ [it']) else indexes)"
  by pat_completeness auto
termination
proof (relation "measure (\<lambda>(buf, it, indexes). Suc (length buf) - it)")
  show "wf (measure (\<lambda>(buf, it, indexes). Suc (length buf) - it))" by simp
next
  fix buf :: "byte list" and it :: nat and indexes :: "nat list" and x
  assume x: "x = search buf it pattern" and ne: "x \<noteq> length buf"
  have off: "search_off ys pattern \<le> length ys" for ys :: "byte list"
    by (induction ys) auto
  have le: "it \<le> length buf" using x ne by (auto simp: search_def split: if_splits)
  then have "it \<le> x" using x by (simp add: search_def)
  moreover have "x < length buf"
    using off [of "drop it buf"] x ne le by (auto simp: search_def)
  ultimately show "((buf, x + 1, indexes @ [x]), (buf, it, indexes))
      \<in> measure (\<lambda>(buf, it, indexes). Suc (length buf) - it)" by simp
qed

declare find_loop.simps [simp del]

definition findIndexesOfMagicWord :: "byte list \<Rightarrow> nat list" where
  "findIndexesOfMagicWord buf = find_loop buf 0 []"

section \<open>The stream reassembler\<close>

text \<open>Sequencing of steps that may leave the defined behaviour of C++.\<close>

definition and_then :: "fault + 'a \<Rightarrow> ('a \<Rightarrow> fault + 'b) \<Rightarrow> fault + 'b" where
  "and_then r f = (case r of Inl e \<Rightarrow> Inl e | Inr x \<Rightarrow> f x)"

text \<open>
  \<^verbatim>\<open>splitIntoSublistsByIndexes\<close>: for \<^verbatim>\<open>i\<close> from 0 while \<^verbatim>\<open>i < indexes.size() - 1\<close>, the
  vector built from the iterator pair \<^verbatim>\<open>(begin + indexes[i], begin + indexes[i + 1] - 1)\<close>
  of \<^verbatim>\<open>dataBuffer\<close>. The bound is computed in \<^verbatim>\<open>size_t\<close>: for an empty \<^verbatim>\<open>indexes\<close> it
  wraps to the largest value and the first pass reads \<^verbatim>\<open>indexes[0]\<close> out of range.
  The second iterator is \<^verbatim>\<open>(begin + end) - 1\<close>: \<^verbatim>\<open>begin + end\<close> has to stay within the
  vector and must not be \<^verbatim>\<open>begin\<close> itself.
\<close>

fun sublists_loop :: "byte list \<Rightarrow> nat list \<Rightarrow> fault + byte list list" where
  "sublists_loop buf (start # fin # rest) =
     (if fin = 0 \<or> length buf < fin then Inl OutOfRange
      else and_then (subvector buf start (fin - 1))
             (\<lambda>sublist. and_then (sublists_loop buf (fin # rest))
                (\<lambda>sublists. Inr (sublist # sublists))))"
| "sublists_loop buf indexes = Inr []"

definition splitIntoSublistsByIndexes :: "byte list \<Rightarrow> nat list \<Rightarrow> fault + byte list list" where
  "splitIntoSublistsByIndexes buf indexes =
     (if indexes = [] then Inl OutOfRange else sublists_loop buf indexes)"

text \<open>
  The loop of \<^verbatim>\<open>poll\<close> that decodes the sublists:
  \<^verbatim>\<open>for (uint8_t i = 0; i < sublists.size(); i++) decodedFrameBuffer.push_back(SensorData(sublists.at(i)));\<close>
  The counter is 8 bits wide and \<open>i + 1\<close> wraps from 255 to 0, so the loop is left only
  when there are at most 255 sublists; not returning is the value \<open>None\<close>.
\<close>

partial_function (option) decode_loop ::
  "(byte list \<Rightarrow> 'f) \<Rightarrow> byte list list \<Rightarrow> 8 word \<Rightarrow> 'f list \<Rightarrow> 'f list option" where
  "decode_loop SensorData sublists i queue =
     (if unat i < length sublists
      then decode_loop SensorData sublists (i + 1) (queue @ [SensorData (sublists ! unat i)])
      else Some queue)"

declare decode_loop.simps [code]

text \<open>
  \<^verbatim>\<open>poll\<close> from the point where at least two indexes were found (source lines 72 to
  91): erase the bytes before the first index, split the buffer at the indexes as they
  were found before that erasure, decode each sublist, erase the range from the first to
  the last index, return the number of sublists.
\<close>

definition carve ::
  "(byte list \<Rightarrow> 'f) \<Rightarrow> nat list \<Rightarrow> 'f IWR6843 \<Rightarrow> fault + (int \<times> 'f IWR6843)" where
  "carve SensorData indexesOfMagicWords s =
     and_then
       (if indexesOfMagicWords ! 0 \<noteq> 0
        then erase (dataBuffer s) 0 (indexesOfMagicWords ! 0) else Inr (dataBuffer s))
       (\<lambda>buf2. and_then (splitIntoSublistsByIndexes buf2 indexesOfMagicWords)
       (\<lambda>sublists.
          case decode_loop SensorData sublists 0 (decodedFrameBuffer s) of
            None \<Rightarrow> Inl NoReturn
          | Some queue \<Rightarrow>
              and_then (erase buf2 (hd indexesOfMagicWords) (last indexesOfMagicWords))
                (\<lambda>buf3. Inr (int (length sublists),
                              s\<lparr>dataBuffer := buf3, decodedFrameBuffer := queue\<rparr>))))"

text \<open>
  \<^verbatim>\<open>poll\<close>: the answer of the data port to this call is the event \<open>ev\<close>. A failed
  \<^verbatim>\<open>read\<close> returns -1, which the source passes on as the end of the range to insert.
\<close>

definition poll ::
  "(byte list \<Rightarrow> 'f) \<Rightarrow> byte io_event \<Rightarrow> 'f IWR6843 \<Rightarrow> fault + (int \<times> 'f IWR6843)" where
  "poll SensorData ev s =
     (case ev of
        FionreadError \<Rightarrow> Inr (- 1, s)
      | Fionread bytesAvailable incoming \<Rightarrow>
          if bytesAvailable < 1 then Inr (0, s)
          else
            (case incoming of
               None \<Rightarrow> Inl OutOfRange
             | Some bytes \<Rightarrow>
                 let bytesToRead = min bytesAvailable 1024;
                     s1 = s\<lparr>dataBuffer := dataBuffer s @ take bytesToRead bytes\<rparr>;
                     indexesOfMagicWords = findIndexesOfMagicWord (dataBuffer s1)
                 in if length indexesOfMagicWords < 2 then Inr (0, s1)
                    else carve SensorData indexesOfMagicWords s1))"

section \<open>The decoded frame queue\<close>

definition getDecodedFrameBuffer :: "'f IWR6843 \<Rightarrow> 'f list" where
  "getDecodedFrameBuffer s = decodedFrameBuffer s"

text \<open>
  \<^verbatim>\<open>getDecodedFramesFromTop(num, del)\<close> copies the range \<^verbatim>\<open>(begin, begin + num)\<close> and, when
  \<^verbatim>\<open>del\<close> is set, erases it.
\<close>

definition getDecodedFramesFromTop ::
  "int \<Rightarrow> bool \<Rightarrow> 'f IWR6843 \<Rightarrow> fault + ('f list \<times> 'f IWR6843)" where
  "getDecodedFramesFromTop num del s =
     (if num < 0 then Inl OutOfRange
      else and_then (subvector (decodedFrameBuffer s) 0 (nat num))
        (\<lambda>framesFromTop.
           if del
           then and_then (erase (decodedFrameBuffer s) 0 (nat num))
                  (\<lambda>queue. Inr (framesFromTop, s\<lparr>decodedFrameBuffer := queue\<rparr>))
           else Inr (framesFromTop, s)))"

section \<open>Uploading the configuration file\<close>

text \<open>\<^verbatim>\<open>std::string::find\<close>: the position of the first occurrence, \<open>None\<close> for \<^verbatim>\<open>npos\<close>.\<close>

fun str_find :: "string \<Rightarrow> string \<Rightarrow> nat option" where
  "str_find [] pat = (if pat = [] then Some 0 else None)"
| "str_find (c # cs) pat =
     (if take (length pat) (c # cs) = pat then Some 0 else map_option Suc (str_find cs pat))"

text \<open>
  The do-while loop of \<^verbatim>\<open>sendConfigFile\<close> that waits for the answer to one line. The
  configuration port is a list of events, one for each pass that reaches the \<^verbatim>\<open>ioctl\<close>;
  when the list is used up before the answer is complete, the loop is still turning
  (\<open>Waiting\<close>). The result carries the contents of \<^verbatim>\<open>response\<close> when the loop is left
  and the events not yet used.
\<close>

datatype wait = Acknowledged | IoctlFailed | ReadFailed | Waiting

fun response_loop :: "char io_event list \<Rightarrow> string \<Rightarrow> wait \<times> string \<times> char io_event list" where
  "response_loop [] response =
     (if str_find response ''Done'' \<noteq> None \<or> str_find response ''Skipped'' \<noteq> None
      then (Acknowledged, response, [])
      else (Waiting, response, []))"
| "response_loop (ev # evs) response =
     (if str_find response ''Done'' \<noteq> None \<or> str_find response ''Skipped'' \<noteq> None
      then (Acknowledged, response, ev # evs)
      else
        (case ev of
           FionreadError \<Rightarrow> (IoctlFailed, response, evs)
         | Fionread bytesAvailable incoming \<Rightarrow>
             if bytesAvailable = 0 then response_loop evs response
             else
               (case incoming of
                  None \<Rightarrow> (ReadFailed, response, evs)
                | Some bytes \<Rightarrow>
                    response_loop evs (response @ take (min bytesAvailable 1024) bytes))))"

text \<open>
  \<^verbatim>\<open>sendConfigFile\<close>. The file is \<open>None\<close> when the stream cannot be opened, otherwise
  the lines that successive calls of \<^verbatim>\<open>getline\<close> deliver. The run is recorded as the
  list of exchanges, in order: the bytes handed to each \<^verbatim>\<open>write\<close>, paired with the
  contents of \<^verbatim>\<open>response\<close> when the wait for its answer was left.
\<close>

datatype outcome = Returned int | Blocked | Faulted fault

fun send_lines ::
  "string list \<Rightarrow> char io_event list \<Rightarrow> outcome \<times> (string \<times> string) list" where
  "send_lines [] evs = (Returned 1, [])"
| "send_lines (configFileLine # rest) evs =
     (if configFileLine = [] \<or> hd configFileLine = CHR ''%'' then send_lines rest evs
      else
        (case response_loop evs [] of
           (Acknowledged, response, evs') \<Rightarrow>
             (case send_lines rest evs' of
                (r, exchanges) \<Rightarrow> (r, (configFileLine, response) # exchanges))
         | (IoctlFailed, response, evs') \<Rightarrow> (Returned (- 1), [(configFileLine, response)])
         | (ReadFailed, response, evs') \<Rightarrow> (Faulted OutOfRange, [(configFileLine, response)])
         | (Waiting, response, evs') \<Rightarrow> (Blocked, [(configFileLine, response)])))"

definition sendConfigFile ::
  "string list option \<Rightarrow> char io_event list \<Rightarrow> outcome \<times> (string \<times> string) list" where
  "sendConfigFile configFile evs =
     (case configFile of
        None \<Rightarrow> (Returned (- 1), [])
      | Some configFileLines \<Rightarrow> send_lines configFileLines evs)"

section \<open>Notions used to state what poll does\<close>

text \<open>
  The spans that \<open>splitIntoSublistsByIndexes\<close> copies for an ascending list of indexes:
  for consecutive indexes \<open>a\<close> and \<open>b\<close>, the \<open>b - 1 - a\<close> bytes from offset \<open>a\<close> on.
\<close>

definition spans :: "'a list \<Rightarrow> nat list \<Rightarrow> 'a list list" where
  "spans buf indexes = map (\<lambda>(a, b). take (b - 1 - a) (drop a buf)) (zip indexes (tl indexes))"

text \<open>The event of a port that holds exactly the bytes \<open>c\<close>.\<close>

definition feed :: "'b list \<Rightarrow> 'b io_event" where
  "feed c = Fionread (length c) (Some c)"

text \<open>
  The result of a \<open>poll\<close> that leaves the buffer \<open>B\<close> to be searched, in closed form:
  one frame for each pair of consecutive indexes, the buffer cut at the last index.
\<close>

definition settle :: "(byte list \<Rightarrow> 'f) \<Rightarrow> 'f IWR6843 \<Rightarrow> byte list \<Rightarrow> int \<times> 'f IWR6843" where
  "settle SensorData s B =
     (int (length (findIndexesOfMagicWord B) - 1),
      s\<lparr>dataBuffer := drop (last (0 # findIndexesOfMagicWord B)) B,
        decodedFrameBuffer :=
          decodedFrameBuffer s @ map SensorData (spans B (findIndexesOfMagicWord B))\<rparr>)"

text \<open>
  The driving loop is left to the caller of the class. \<open>poll_chunks\<close> calls \<open>poll\<close>
  once for each chunk, the port holding that chunk, and adds up the return values.
\<close>

fun poll_chunks ::
  "(byte list \<Rightarrow> 'f) \<Rightarrow> byte list list \<Rightarrow> 'f IWR6843 \<Rightarrow> fault + (int \<times> 'f IWR6843)" where
  "poll_chunks SensorData [] s = Inr (0, s)"
| "poll_chunks SensorData (c # cs) s =
     and_then (poll SensorData (feed c) s)
       (\<lambda>(n, s'). and_then (poll_chunks SensorData cs s') (\<lambda>(m, s''). Inr (n + m, s'')))"

section \<open>Notions used to state what the upload does\<close>

text \<open>The lines of the script that are not empty and do not begin with \<open>%\<close>.\<close>

definition kept_lines :: "string list \<Rightarrow> string list" where
  "kept_lines configFileLines = filter (\<lambda>l. l \<noteq> [] \<and> hd l \<noteq> CHR ''%'') configFileLines"

text \<open>A response contains the substring \<open>Done\<close> or \<open>Skipped\<close>.\<close>

definition has_ack :: "string \<Rightarrow> bool" where
  "has_ack response \<longleftrightarrow>
     (\<exists>u v. response = u @ ''Done'' @ v) \<or> (\<exists>u v. response = u @ ''Skipped'' @ v)"

text \<open>
  The bytes that one round of \<^verbatim>\<open>ioctl\<close> and \<^verbatim>\<open>read\<close> hands to the caller (at most 1024,
  the size of the caller's array), and the bytes handed over by a list of rounds.
\<close>

fun delivered :: "'b io_event \<Rightarrow> 'b list" where
  "delivered FionreadError = []"
| "delivered (Fionread n None) = []"
| "delivered (Fionread n (Some bytes)) = (if n = 0 then [] else take (min n 1024) bytes)"

definition reads :: "'b io_event list \<Rightarrow> 'b list" where
  "reads evs = concat (map delivered evs)"

text \<open>A round without error: the query succeeds, and so does the read if one follows.\<close>

fun healthy :: "'b io_event \<Rightarrow> bool" where
  "healthy FionreadError = False"
| "healthy (Fionread n None) = (n = 0)"
| "healthy (Fionread n (Some bytes)) = True"

text \<open>
  A stretch of port events answers a line when it has no error, the bytes it delivers
  contain \<open>Done\<close> or \<open>Skipped\<close>, and the bytes delivered by any shorter initial part
  do not. A stretch is silent when it has no error and no initial part of it, the whole
  included, delivers such an answer.
\<close>

definition answers :: "char io_event list \<Rightarrow> bool" where
  "answers seg \<longleftrightarrow>
     (\<forall>ev \<in> set seg. healthy ev) \<and> has_ack (reads seg) \<and>
     (\<forall>k < length seg. \<not> has_ack (reads (take k seg)))"

definition silent :: "char io_event list \<Rightarrow> bool" where
  "silent tail \<longleftrightarrow>
     (\<forall>ev \<in> set tail. healthy ev) \<and> (\<forall>k \<le> length tail. \<not> has_ack (reads (take k tail)))"

section \<open>Properties of the locator\<close>

lemma search_off_le: "search_off xs pat \<le> length xs"
  by (induction xs) auto

lemma search_ge: "it \<le> length buf \<Longrightarrow> it \<le> search buf it pat"
  by (simp add: search_def)

lemma search_le: "search buf it pat \<le> length buf"
  using search_off_le [of "drop it buf" pat] by (auto simp add: search_def)

lemma search_beyond: "\<not> it \<le> length buf \<Longrightarrow> search buf it pat = length buf"
  by (simp add: search_def)

lemma search_off_hit:
  "search_off xs pat < length xs \<Longrightarrow> take (length pat) (drop (search_off xs pat) xs) = pat"
  by (induction xs) (auto split: if_splits)

lemma search_off_miss:
  "j < search_off xs pat \<Longrightarrow> take (length pat) (drop j xs) \<noteq> pat"
proof (induction xs arbitrary: j)
  case Nil
  then show ?case by simp
next
  case (Cons x xs)
  show ?case
  proof (cases j)
    case 0
    with Cons.prems show ?thesis by (auto split: if_splits)
  next
    case (Suc k)
    with Cons.prems have "k < search_off xs pat" by (auto split: if_splits)
    then show ?thesis using Cons.IH Suc by simp
  qed
qed

lemma search_hit:
  assumes "search buf it pat \<noteq> length buf"
  shows "take (length pat) (drop (search buf it pat) buf) = pat"
proof -
  have le: "it \<le> length buf" using assms search_beyond by blast
  then have "search_off (drop it buf) pat < length (drop it buf)"
    using assms search_off_le [of "drop it buf" pat] by (auto simp: search_def)
  from search_off_hit [OF this] le show ?thesis
    by (simp add: search_def add.commute)
qed

lemma search_miss:
  assumes "it \<le> j" and "j < search buf it pat"
  shows "take (length pat) (drop j buf) \<noteq> pat"
proof -
  have le: "it \<le> length buf" using assms search_le [of buf it pat] by simp
  with assms have "j - it < search_off (drop it buf) pat" by (auto simp: search_def)
  from search_off_miss [OF this] assms(1) show ?thesis by simp
qed

lemma filter_upt_none:
  "(\<And>j. a \<le> j \<Longrightarrow> j < b \<Longrightarrow> \<not> P j) \<Longrightarrow> filter P [a..<b] = []"
  by (simp add: filter_empty_conv)

lemma filter_upt_first:
  assumes "a \<le> j" and "j < n" and "P j" and "\<And>k. a \<le> k \<Longrightarrow> k < j \<Longrightarrow> \<not> P k"
  shows "filter P [a..<n] = j # filter P [j + 1..<n]"
proof -
  have "[a..<n] = [a..<j] @ j # [j + 1..<n]"
    using assms(1,2)
    by (metis Suc_eq_plus1 le_Suc_ex less_imp_le_nat upt_add_eq_append upt_conv_Cons)
  moreover have "filter P [a..<j] = []" using assms(4) by (simp add: filter_empty_conv)
  ultimately show ?thesis using assms(3) by simp
qed

text \<open>The loop collects, in ascending order, every offset from \<open>it\<close> on where the
  pattern starts.\<close>

lemma find_loop_filter:
  "it \<le> length buf \<Longrightarrow>
   find_loop buf it acc
     = acc @ filter (\<lambda>i. take (length pattern) (drop i buf) = pattern) [it..<length buf]"
proof (induction buf it acc rule: find_loop.induct)
  case (1 buf it indexes)
  let ?P = "\<lambda>i. take (length pattern) (drop i buf) = pattern"
  let ?j = "search buf it pattern"
  show ?case
  proof (cases "?j = length buf")
    case True
    have "filter ?P [it..<length buf] = []"
      using search_miss [of it _ buf pattern] True by (intro filter_upt_none) simp
    moreover have "find_loop buf it indexes = indexes"
      using True by (subst find_loop.simps) (simp add: Let_def)
    ultimately show ?thesis by simp
  next
    case False
    have lt: "?j < length buf" using False search_le [of buf it pattern] by simp
    have ge: "it \<le> ?j" using search_ge [OF "1.prems"] .
    have "find_loop buf it indexes = find_loop buf (?j + 1) (indexes @ [?j])"
      using False by (subst find_loop.simps) (simp add: Let_def)
    also have "\<dots> = (indexes @ [?j]) @ filter ?P [?j + 1..<length buf]"
      using "1.IH" [OF refl False] lt by simp
    also have "\<dots> = indexes @ filter ?P [it..<length buf]"
      using filter_upt_first [of it ?j "length buf" ?P, OF ge lt search_hit [OF False]]
        search_miss [of it _ buf pattern] by simp
    finally show ?thesis .
  qed
qed

lemma findIndexes_filter:
  "findIndexesOfMagicWord buf
     = filter (\<lambda>i. take (length pattern) (drop i buf) = pattern) [0..<length buf]"
  using find_loop_filter [of 0 buf "[]"] by (simp add: findIndexesOfMagicWord_def)

lemma occurs_iff:
  "pat \<noteq> [] \<Longrightarrow> (\<exists>u v. buf = u @ pat @ v \<and> i = length u)
     \<longleftrightarrow> (i < length buf \<and> take (length pat) (drop i buf) = pat)"
proof
  assume "\<exists>u v. buf = u @ pat @ v \<and> i = length u" and "pat \<noteq> []"
  then show "i < length buf \<and> take (length pat) (drop i buf) = pat" by auto
next
  assume h: "i < length buf \<and> take (length pat) (drop i buf) = pat"
  have "buf = take i buf @ take (length pat) (drop i buf) @ drop (length pat) (drop i buf)"
    by (simp only: append_take_drop_id)
  with h have "buf = take i buf @ pat @ drop (length pat) (drop i buf) \<and> i = length (take i buf)"
    by simp
  then show "\<exists>u v. buf = u @ pat @ v \<and> i = length u" by blast
qed

text \<open>
  Claim C5. For every byte buffer, \<open>findIndexesOfMagicWord\<close> returns the offsets at
  which the 8-byte marker 02 01 04 03 06 05 08 07 occurs: the result is strictly
  ascending, its elements are exactly the offsets \<open>i\<close> such that the buffer is some
  \<open>u\<close> of length \<open>i\<close>, then the marker, then some \<open>v\<close>, and its length is the number of
  such offsets. So a buffer with K occurrences yields K indexes, and one with none
  yields the empty sequence.
\<close>

theorem locator_correct:
  "sorted_wrt (<) (findIndexesOfMagicWord buf) \<and>
   set (findIndexesOfMagicWord buf) = {i. \<exists>u v. buf = u @ pattern @ v \<and> i = length u} \<and>
   length (findIndexesOfMagicWord buf)
     = card {i. \<exists>u v. buf = u @ pattern @ v \<and> i = length u} \<and>
   pattern = [0x02, 0x01, 0x04, 0x03, 0x06, 0x05, 0x08, 0x07]"
proof -
  let ?P = "\<lambda>i. take (length pattern) (drop i buf) = pattern"
  let ?S = "{i. \<exists>u v. buf = u @ pattern @ v \<and> i = length u}"
  have ne: "pattern \<noteq> []" by (simp add: pattern_def)
  have eq: "findIndexesOfMagicWord buf = filter ?P [0..<length buf]"
    by (rule findIndexes_filter)
  have s: "sorted_wrt (<) (findIndexesOfMagicWord buf)"
    unfolding eq by (rule sorted_wrt_filter) simp
  have st: "set (findIndexesOfMagicWord buf) = ?S"
    unfolding eq using occurs_iff [OF ne, of buf] by auto
  have "distinct (findIndexesOfMagicWord buf)" unfolding eq by simp
  then have "length (findIndexesOfMagicWord buf) = card ?S"
    using st distinct_card by metis
  with s st show ?thesis by (simp add: pattern_def)
qed

section \<open>Indexes under appending and cutting\<close>

lemma sorted_le_last: "sorted_wrt (<) xs \<Longrightarrow> x \<in> set xs \<Longrightarrow> x \<le> last (xs :: nat list)"
  by (induction xs) (auto simp: less_imp_le)

lemma findIndexes_sorted: "sorted_wrt (<) (findIndexesOfMagicWord buf)"
  unfolding findIndexes_filter by (rule sorted_wrt_filter) simp

lemma findIndexes_bound:
  "i \<in> set (findIndexesOfMagicWord buf) \<Longrightarrow> i + 8 \<le> length buf"
proof -
  assume "i \<in> set (findIndexesOfMagicWord buf)"
  then have "take (length pattern) (drop i buf) = pattern" by (simp add: findIndexes_filter)
  then have "length (take (length pattern) (drop i buf)) = 8" by (simp add: pattern_def)
  then show ?thesis by (simp add: pattern_def)
qed

lemma sorted_split_filter:
  assumes "sorted_wrt (<) (xs :: nat list)" and "\<And>i j. i \<le> j \<Longrightarrow> Q j \<Longrightarrow> Q i"
  shows "xs = filter Q xs @ filter (\<lambda>i. \<not> Q i) xs"
  using assms(1)
proof (induction xs)
  case Nil
  show ?case by simp
next
  case (Cons x xs)
  then have IH: "xs = filter Q xs @ filter (\<lambda>i. \<not> Q i) xs" by simp
  show ?case
  proof (cases "Q x")
    case True
    with IH show ?thesis by simp
  next
    case False
    have "\<not> Q y" if "y \<in> set xs" for y
      using Cons.prems that assms(2) [of x y] False by auto
    then have "filter Q xs = []" and "filter (\<lambda>i. \<not> Q i) xs = xs"
      by (simp_all add: filter_empty_conv filter_id_conv)
    with False show ?thesis by simp
  qed
qed

lemma occ_append:
  "i + length pat \<le> length X \<Longrightarrow>
   take (length pat) (drop i (X @ Y)) = take (length pat) (drop i X)"
  by simp

lemma findIndexes_mem:
  "i \<in> set (findIndexesOfMagicWord buf)
     \<longleftrightarrow> i + 8 \<le> length buf \<and> take (length pattern) (drop i buf) = pattern"
proof
  assume m: "i \<in> set (findIndexesOfMagicWord buf)"
  with findIndexes_bound [OF m] show "i + 8 \<le> length buf \<and> take (length pattern) (drop i buf) = pattern"
    by (simp add: findIndexes_filter)
next
  assume "i + 8 \<le> length buf \<and> take (length pattern) (drop i buf) = pattern"
  then show "i \<in> set (findIndexesOfMagicWord buf)" by (simp add: findIndexes_filter)
qed

lemma sorted_distinct_set_eq:
  "sorted_wrt (<) (xs :: nat list) \<Longrightarrow> sorted_wrt (<) ys \<Longrightarrow> set xs = set ys \<Longrightarrow> xs = ys"
  by (metis sorted_wrt_mono_rel less_imp_le strict_sorted_iff strict_sorted_equal)

lemma findIndexes_append_fits:
  "filter (\<lambda>i. i + 8 \<le> length X) (findIndexesOfMagicWord (X @ Y)) = findIndexesOfMagicWord X"
proof (rule sorted_distinct_set_eq)
  show "sorted_wrt (<) (filter (\<lambda>i. i + 8 \<le> length X) (findIndexesOfMagicWord (X @ Y)))"
    by (rule sorted_wrt_filter) (rule findIndexes_sorted)
  show "sorted_wrt (<) (findIndexesOfMagicWord X)" by (rule findIndexes_sorted)
  have len: "length pattern = 8" by (simp add: pattern_def)
  show "set (filter (\<lambda>i. i + 8 \<le> length X) (findIndexesOfMagicWord (X @ Y)))
      = set (findIndexesOfMagicWord X)"
    using occ_append [of _ pattern X Y] by (auto simp: findIndexes_mem len)
qed

lemma findIndexes_append:
  "findIndexesOfMagicWord (X @ Y)
     = findIndexesOfMagicWord X
       @ filter (\<lambda>i. \<not> i + 8 \<le> length X) (findIndexesOfMagicWord (X @ Y))"
  using sorted_split_filter [OF findIndexes_sorted [of "X @ Y"],
      of "\<lambda>i. i + 8 \<le> length X"]
  by (simp add: findIndexes_append_fits)

lemma findIndexes_drop:
  "findIndexesOfMagicWord (drop L B)
     = map (\<lambda>i. i - L) (filter (\<lambda>i. L \<le> i) (findIndexesOfMagicWord B))"
proof (rule sorted_distinct_set_eq)
  show "sorted_wrt (<) (findIndexesOfMagicWord (drop L B))" by (rule findIndexes_sorted)
  have "sorted_wrt (<) (filter (\<lambda>i. L \<le> i) (findIndexesOfMagicWord B))"
    by (rule sorted_wrt_filter) (rule findIndexes_sorted)
  then show "sorted_wrt (<) (map (\<lambda>i. i - L) (filter (\<lambda>i. L \<le> i) (findIndexesOfMagicWord B)))"
    by (simp add: sorted_wrt_map sorted_wrt_filter) (erule sorted_wrt_mono_rel [rotated], auto)
  show "set (findIndexesOfMagicWord (drop L B))
      = set (map (\<lambda>i. i - L) (filter (\<lambda>i. L \<le> i) (findIndexesOfMagicWord B)))"
  proof (intro set_eqI iffI)
    fix j assume "j \<in> set (findIndexesOfMagicWord (drop L B))"
    then have "j + L \<in> set (findIndexesOfMagicWord B)"
      by (auto simp: findIndexes_mem add.commute)
    then have "j + L \<in> set (filter (\<lambda>i. L \<le> i) (findIndexesOfMagicWord B))" by simp
    then have "(j + L) - L \<in> (\<lambda>i. i - L) ` set (filter (\<lambda>i. L \<le> i) (findIndexesOfMagicWord B))"
      by (rule imageI)
    then show "j \<in> set (map (\<lambda>i. i - L) (filter (\<lambda>i. L \<le> i) (findIndexesOfMagicWord B)))"
      by simp
  next
    fix j assume "j \<in> set (map (\<lambda>i. i - L) (filter (\<lambda>i. L \<le> i) (findIndexesOfMagicWord B)))"
    then obtain i where i: "i \<in> set (findIndexesOfMagicWord B)" "L \<le> i" "j = i - L" by auto
    then show "j \<in> set (findIndexesOfMagicWord (drop L B))"
      by (auto simp: findIndexes_mem add.commute)
  qed
qed

lemma filter_ge_last:
  "sorted_wrt (<) (xs :: nat list) \<Longrightarrow> xs \<noteq> [] \<Longrightarrow> filter (\<lambda>i. last xs \<le> i) xs = [last xs]"
proof (induction xs rule: induct_list012)
  case 1
  then show ?case by simp
next
  case (2 x)
  show ?case by simp
next
  case (3 x y zs)
  then have "filter (\<lambda>i. last (y # zs) \<le> i) (y # zs) = [last (y # zs)]" by simp
  moreover have "x < last (y # zs)"
    using "3.prems"(1) sorted_le_last [of "y # zs" y] by auto
  ultimately show ?case by simp
qed

text \<open>The indexes of a buffer that was cut at its last index and then extended.\<close>

lemma findIndexes_after_cut:
  assumes I1: "findIndexesOfMagicWord B1 \<noteq> []"
    and L_def: "L = last (findIndexesOfMagicWord B1)"
    and new_def: "new = filter (\<lambda>i. \<not> i + 8 \<le> length B1) (findIndexesOfMagicWord (B1 @ Y))"
  shows "findIndexesOfMagicWord (B1 @ Y) = findIndexesOfMagicWord B1 @ new"
    and "findIndexesOfMagicWord (drop L B1 @ Y) = 0 # map (\<lambda>i. i - L) new"
    and "\<forall>i \<in> set new. L < i"
    and "L \<le> length B1"
proof -
  show app: "findIndexesOfMagicWord (B1 @ Y) = findIndexesOfMagicWord B1 @ new"
    unfolding new_def by (rule findIndexes_append)
  have "L \<in> set (findIndexesOfMagicWord B1)" using I1 by (simp add: L_def)
  then have L8: "L + 8 \<le> length B1" by (rule findIndexes_bound)
  then show Lle: "L \<le> length B1" by simp
  show gt: "\<forall>i \<in> set new. L < i" using L8 by (auto simp: new_def)
  have f1: "filter (\<lambda>i. L \<le> i) (findIndexesOfMagicWord B1) = [L]"
    unfolding L_def using findIndexes_sorted I1 by (rule filter_ge_last)
  have f2: "filter (\<lambda>i. L \<le> i) new = new"
    using gt by (simp add: filter_id_conv less_imp_le)
  have "drop L B1 @ Y = drop L (B1 @ Y)" using Lle by simp
  then have "findIndexesOfMagicWord (drop L B1 @ Y)
      = map (\<lambda>i. i - L) (filter (\<lambda>i. L \<le> i) (findIndexesOfMagicWord (B1 @ Y)))"
    by (simp only: findIndexes_drop)
  also have "\<dots> = map (\<lambda>i. i - L) ([L] @ new)" by (simp only: app filter_append f1 f2)
  finally show "findIndexesOfMagicWord (drop L B1 @ Y) = 0 # map (\<lambda>i. i - L) new" by simp
qed

text \<open>The bytes of the marker are pairwise distinct, so two occurrences are at least
  8 bytes apart, and a chunk of at most 1024 bytes brings at most 128 new indexes.\<close>

lemma marker_no_overlap:
  assumes i: "take (length pattern) (drop i B) = pattern"
    and j: "take (length pattern) (drop j B) = pattern"
    and lt: "i < j"
  shows "i + 8 \<le> j"
proof (rule ccontr)
  assume "\<not> i + 8 \<le> j"
  with lt obtain d where d: "j = i + d" "0 < d" "d < 8"
    by (metis add.commute add_diff_inverse_nat less_diff_conv2 less_imp_le_nat not_le_imp_less
        not_less_iff_gr_or_eq zero_less_diff)
  have "length (take (length pattern) (drop j B)) = 8" using j by (simp add: pattern_def)
  then have jb: "j + 8 \<le> length B" by (simp add: pattern_def)
  have "pattern ! d = take (length pattern) (drop i B) ! d" using i by simp
  also have "\<dots> = drop i B ! d" using d by (simp add: pattern_def)
  also have "\<dots> = B ! j" using d jb by (simp add: nth_drop)
  finally have a: "pattern ! d = B ! j" .
  have "pattern ! 0 = take (length pattern) (drop j B) ! 0" using j by simp
  also have "\<dots> = drop j B ! 0" by (simp add: pattern_def)
  also have "\<dots> = B ! j" using jb by (simp add: nth_drop)
  finally have "pattern ! d = pattern ! 0" using a by simp
  moreover have "d = 1 \<or> d = 2 \<or> d = 3 \<or> d = 4 \<or> d = 5 \<or> d = 6 \<or> d = 7"
    using d by arith
  ultimately show False by (auto simp: pattern_def)
qed

lemma findIndexes_spaced: "sorted_wrt (\<lambda>a b. a + 8 \<le> b) (findIndexesOfMagicWord B)"
proof (rule sorted_wrt_mono_rel [OF _ findIndexes_sorted])
  fix x y
  assume "x \<in> set (findIndexesOfMagicWord B)" "y \<in> set (findIndexesOfMagicWord B)" "x < y"
  then show "x + 8 \<le> y" using marker_no_overlap [of x B y] by (simp add: findIndexes_mem)
qed

lemma spaced_length:
  "sorted_wrt (\<lambda>a b. a + 8 \<le> b) (xs :: nat list) \<Longrightarrow> xs \<noteq> [] \<Longrightarrow>
   hd xs + 8 * (length xs - 1) \<le> last xs"
proof (induction xs rule: induct_list012)
  case 1
  then show ?case by simp
next
  case (2 x)
  show ?case by simp
next
  case (3 x y zs)
  then have "y + 8 * (length (y # zs) - 1) \<le> last (y # zs)" by simp
  moreover have "x + 8 \<le> y" using "3.prems"(1) by simp
  ultimately show ?case by simp
qed

lemma few_new_indexes:
  assumes len: "length c \<le> 1024"
  shows "length (filter (\<lambda>i. \<not> i + 8 \<le> length b) (findIndexesOfMagicWord (b @ c))) \<le> 128"
proof (cases "filter (\<lambda>i. \<not> i + 8 \<le> length b) (findIndexesOfMagicWord (b @ c)) = []")
  case True
  then show ?thesis by simp
next
  case False
  let ?new = "filter (\<lambda>i. \<not> i + 8 \<le> length b) (findIndexesOfMagicWord (b @ c))"
  have sp: "sorted_wrt (\<lambda>a b. a + 8 \<le> b) ?new"
    by (rule sorted_wrt_filter) (rule findIndexes_spaced)
  have mem: "P x \<and> x \<in> set xs" if "x \<in> set (filter P xs)" for P x and xs :: "nat list"
    using that by simp
  have "\<not> hd ?new + 8 \<le> length b" using mem [OF hd_in_set [OF False]] by simp
  moreover have "last ?new + 8 \<le> length (b @ c)"
    using mem [OF last_in_set [OF False]] findIndexes_bound [of "last ?new" "b @ c"] by simp
  ultimately have "\<not> hd ?new + 8 \<le> length b" and "last ?new + 8 \<le> length (b @ c)" .
  with spaced_length [OF sp False] len show ?thesis by simp
qed

lemma few_after_chunk:
  assumes "length (findIndexesOfMagicWord b) < 2" and "length c \<le> 1024"
  shows "length (findIndexesOfMagicWord (b @ c)) \<le> 256"
proof -
  have "length (findIndexesOfMagicWord (b @ c))
      = length (findIndexesOfMagicWord b)
        + length (filter (\<lambda>i. \<not> i + 8 \<le> length b) (findIndexesOfMagicWord (b @ c)))"
    by (subst findIndexes_append) simp
  with assms(1) few_new_indexes [OF assms(2), of b] show ?thesis by simp
qed

lemma clean_prefix:
  assumes "findIndexesOfMagicWord (X @ Y) = [] \<or> hd (findIndexesOfMagicWord (X @ Y)) = 0"
  shows "findIndexesOfMagicWord X = [] \<or> hd (findIndexesOfMagicWord X) = 0"
proof (cases "findIndexesOfMagicWord X = []")
  case True
  then show ?thesis by simp
next
  case False
  then have "hd (findIndexesOfMagicWord (X @ Y)) = hd (findIndexesOfMagicWord X)"
    by (subst findIndexes_append) simp
  moreover have "findIndexesOfMagicWord (X @ Y) \<noteq> []"
    using False by (subst findIndexes_append) simp
  ultimately show ?thesis using assms by simp
qed

section \<open>Properties of the decoding loop\<close>

text \<open>With at most 255 sublists the loop returns, having appended the decoded sublists
  in order; with more it never returns.\<close>

lemma decode_loop_from:
  "length sublists \<le> 255 \<Longrightarrow> unat i \<le> length sublists \<Longrightarrow>
   decode_loop SensorData sublists i queue
     = Some (queue @ map SensorData (drop (unat i) sublists))"
proof (induction "length sublists - unat i" arbitrary: i queue)
  case 0
  then have "\<not> unat i < length sublists" by simp
  then show ?case using 0 by (subst decode_loop.simps) simp
next
  case (Suc n)
  then have lt: "unat i < length sublists" by simp
  with Suc.prems have "unat i + unat (1 :: 8 word) < 2 ^ LENGTH(8)" by simp
  then have "unat (i + 1) = unat i + unat (1 :: 8 word)" by (simp only: unat_add_lem)
  then have u: "unat (i + 1) = unat i + 1" by simp
  have "decode_loop SensorData sublists i queue
      = decode_loop SensorData sublists (i + 1) (queue @ [SensorData (sublists ! unat i)])"
    using lt by (subst decode_loop.simps) simp
  also have "\<dots> = Some ((queue @ [SensorData (sublists ! unat i)])
                      @ map SensorData (drop (unat (i + 1)) sublists))"
    using Suc.hyps(2) Suc.prems lt u by (intro Suc.hyps(1)) simp_all
  also have "\<dots> = Some (queue @ map SensorData (drop (unat i) sublists))"
    using lt u by (simp add: Cons_nth_drop_Suc [symmetric])
  finally show ?case .
qed

lemma decode_loop_returns:
  "length sublists \<le> 255 \<Longrightarrow>
   decode_loop SensorData sublists 0 queue = Some (queue @ map SensorData sublists)"
  using decode_loop_from [of sublists 0 SensorData queue] by simp

lemma decode_loop_never_returns:
  assumes "256 \<le> length sublists"
  shows "decode_loop SensorData sublists i queue = None"
proof -
  have small: "unat j < 256" for j :: "8 word"
    using unsigned_less [of j, where ?'a = nat] by simp
  have "\<not> 256 \<le> length sublists" if "decode_loop SensorData sublists i queue = Some y" for y
  proof (rule decode_loop.raw_induct
      [where P = "\<lambda>sd subs j q z. \<not> 256 \<le> length subs", OF _ that])
    fix f sd subs and j :: "8 word" and q z
    assume IH: "\<And>sd subs j q z. f sd subs j q = Some z \<Longrightarrow> \<not> 256 \<le> length subs"
      and body: "(if unat j < length subs
                  then f sd subs (j + 1) (q @ [sd (subs ! unat j)]) else Some q) = Some z"
    show "\<not> 256 \<le> length subs"
    proof
      assume big: "256 \<le> length subs"
      with small [of j] have "unat j < length subs" by simp
      with body have "f sd subs (j + 1) (q @ [sd (subs ! unat j)]) = Some z" by simp
      from IH [OF this] big show False by simp
    qed
  qed
  with assms show ?thesis by (cases "decode_loop SensorData sublists i queue") auto
qed

section \<open>Properties of poll\<close>

text \<open>
  Claim C10. When the availability query (\<^verbatim>\<open>ioctl\<close> with \<^verbatim>\<open>FIONREAD\<close>) fails,
  \<open>poll\<close> returns -1 without reading, and the byte buffer and the decoded frame queue
  are as they were before the call.
\<close>

theorem poll_transport_error:
  "poll SensorData FionreadError s = Inr (- 1, s)"
  by (simp add: poll_def)

text \<open>
  Claim C7. In every state, when the transport reports zero available bytes, \<open>poll\<close>
  returns 0 and leaves the byte buffer and the decoded frame queue unchanged.
\<close>

theorem poll_idle:
  "poll SensorData (Fionread 0 incoming) s = Inr (0, s)"
  by (simp add: poll_def)

text \<open>
  Claim C6. When the transport reports at least one byte, the read delivers its bytes,
  and the byte buffer with the bytes read appended holds fewer than two offsets of the
  marker, \<open>poll\<close> returns 0, the new buffer is the old one followed by the bytes read
  (nothing is erased), and the decoded frame queue is unchanged.
\<close>

theorem poll_partial_frame:
  assumes "1 \<le> bytesAvailable"
    and "length (findIndexesOfMagicWord
           (dataBuffer s @ take (min bytesAvailable 1024) bytes)) < 2"
  shows "\<exists>s'. poll SensorData (Fionread bytesAvailable (Some bytes)) s = Inr (0, s') \<and>
              dataBuffer s' = dataBuffer s @ take (min bytesAvailable 1024) bytes \<and>
              decodedFrameBuffer s' = decodedFrameBuffer s"
  using assms by (simp add: poll_def Let_def)

theorem poll_partial_frame_witness:
  "(1::nat) \<le> 10 \<and>
   length (findIndexesOfMagicWord
     (dataBuffer \<lparr>dataBuffer = [0xAA, 0xBB], decodedFrameBuffer = [''f'']\<rparr>
        @ take (min 10 1024) (pattern @ [0x11, 0x12]))) < 2 \<and>
   (\<exists>s'. poll (\<lambda>frame. ''g'') (Fionread 10 (Some (pattern @ [0x11, 0x12])))
            \<lparr>dataBuffer = [0xAA, 0xBB], decodedFrameBuffer = [''f'']\<rparr> = Inr (0, s') \<and>
         dataBuffer s' = [0xAA, 0xBB] @ pattern @ [0x11, 0x12] \<and>
         decodedFrameBuffer s' = [''f''])"
proof -
  have h1: "(1::nat) \<le> 10" by simp
  have h2: "length (findIndexesOfMagicWord
     (dataBuffer \<lparr>dataBuffer = [0xAA, 0xBB], decodedFrameBuffer = [''f'']\<rparr>
        @ take (min 10 1024) (pattern @ [0x11, 0x12]))) < 2"
    by code_simp
  show ?thesis
    using h1 h2 poll_partial_frame [OF h1 h2, of "\<lambda>frame. ''g''"]
    by (simp add: pattern_def)
qed

section \<open>Polling without bytes before the first marker\<close>

lemma spans_short: "length indexes < 2 \<Longrightarrow> spans buf indexes = []"
  by (cases indexes; cases "tl indexes") (auto simp: spans_def)

lemma spans_Cons2: "spans buf (a # b # rest) = take (b - 1 - a) (drop a buf) # spans buf (b # rest)"
  by (simp add: spans_def)

lemma spans_append: "xs \<noteq> [] \<Longrightarrow> spans buf (xs @ ys) = spans buf xs @ spans buf (last xs # ys)"
proof (induction xs rule: induct_list012)
  case 1
  then show ?case by simp
next
  case (2 x)
  show ?case by (simp add: spans_short)
next
  case (3 x y zs)
  then show ?case by (simp add: spans_Cons2)
qed

lemma spans_shift:
  "\<forall>i \<in> set J. L \<le> i \<Longrightarrow> spans (drop L B) (map (\<lambda>i. i - L) J) = spans B J"
proof (induction J rule: induct_list012)
  case 1
  show ?case by (simp add: spans_def)
next
  case (2 x)
  show ?case by (simp add: spans_short)
next
  case (3 x y zs)
  then have "spans (drop L B) (map (\<lambda>i. i - L) (y # zs)) = spans B (y # zs)" by simp
  moreover have "take (y - L - 1 - (x - L)) (drop (x - L) (drop L B)) = take (y - 1 - x) (drop x B)"
    using "3.prems" by (simp add: add.commute)
  ultimately show ?case by (simp add: spans_Cons2)
qed

lemma spans_prefix:
  "\<forall>i \<in> set J. i \<le> length X \<Longrightarrow> spans (X @ Y) J = spans X J"
proof (induction J rule: induct_list012)
  case 1
  show ?case by (simp add: spans_def)
next
  case (2 x)
  show ?case by (simp add: spans_short)
next
  case (3 x y zs)
  then have "spans (X @ Y) (y # zs) = spans X (y # zs)" by simp
  moreover have "take (y - 1 - x) (drop x (X @ Y)) = take (y - 1 - x) (drop x X)"
    using "3.prems" by simp
  ultimately show ?case by (simp add: spans_Cons2)
qed

text \<open>For ascending indexes that lie in the buffer, the split returns the spans: every
  sublist stops one byte before the next index.\<close>

lemma sublists_loop_spans:
  "sorted_wrt (<) indexes \<Longrightarrow> indexes \<noteq> [] \<Longrightarrow> last indexes \<le> length buf \<Longrightarrow>
   sublists_loop buf indexes = Inr (spans buf indexes)"
proof (induction buf indexes rule: sublists_loop.induct)
  case (1 buf start fin rest)
  from "1.prems"(1) have lt: "start < fin" and srt: "sorted_wrt (<) (fin # rest)" by auto
  have "fin \<le> last (fin # rest)" using sorted_le_last [OF srt, of fin] by simp
  with "1.prems"(3) have fl: "fin \<le> length buf" by simp
  have ok: "\<not> (fin = 0 \<or> length buf < fin)" using lt fl by simp
  have sv: "subvector buf start (fin - 1) = Inr (take (fin - 1 - start) (drop start buf))"
    using lt fl by (auto simp add: subvector_def)
  have "sublists_loop buf (fin # rest) = Inr (spans buf (fin # rest))"
    using "1.IH" [OF ok] srt "1.prems"(3) by simp
  then show ?case using ok sv by (simp add: and_then_def spans_def)
qed (simp_all add: spans_def)

lemma splitIntoSublists_spans:
  "sorted_wrt (<) indexes \<Longrightarrow> indexes \<noteq> [] \<Longrightarrow> last indexes \<le> length buf \<Longrightarrow>
   splitIntoSublistsByIndexes buf indexes = Inr (spans buf indexes)"
  by (simp add: splitIntoSublistsByIndexes_def sublists_loop_spans)

lemma length_spans: "length (spans buf indexes) = length indexes - 1"
  by (simp add: spans_def)

text \<open>Without bytes before the first marker and with at most 256 indexes, carving
  appends the spans between consecutive indexes, each without its last byte, and keeps
  the bytes from the last index on.\<close>

lemma carve_clean:
  assumes idx: "indexes = findIndexesOfMagicWord (dataBuffer s)"
    and two: "2 \<le> length indexes" and few: "length indexes \<le> 256"
    and zero: "hd indexes = 0"
  shows "carve SensorData indexes s
     = Inr (int (length indexes) - 1,
            s\<lparr>dataBuffer := drop (last indexes) (dataBuffer s),
              decodedFrameBuffer :=
                decodedFrameBuffer s @ map SensorData (spans (dataBuffer s) indexes)\<rparr>)"
proof -
  have ne: "indexes \<noteq> []" using two by auto
  have srt: "sorted_wrt (<) indexes" using idx findIndexes_sorted by simp
  have "last indexes \<in> set indexes" using ne by simp
  then have lst: "last indexes \<le> length (dataBuffer s)"
    using findIndexes_bound [of "last indexes" "dataBuffer s"] idx by simp
  have z: "indexes ! 0 = 0" using zero ne by (simp add: hd_conv_nth)
  have sp: "splitIntoSublistsByIndexes (dataBuffer s) indexes = Inr (spans (dataBuffer s) indexes)"
    using splitIntoSublists_spans [OF srt ne lst] .
  have dl: "decode_loop SensorData (spans (dataBuffer s) indexes) 0 (decodedFrameBuffer s)
      = Some (decodedFrameBuffer s @ map SensorData (spans (dataBuffer s) indexes))"
    using few two by (intro decode_loop_returns) (simp add: length_spans)
  have er: "erase (dataBuffer s) (hd indexes) (last indexes)
      = Inr (drop (last indexes) (dataBuffer s))"
    using zero lst by (simp add: erase_def)
  have n: "int (length (spans (dataBuffer s) indexes)) = int (length indexes) - 1"
    using two by (simp add: length_spans)
  show ?thesis
    unfolding carve_def using z sp dl er n by (simp add: and_then_def)
qed

text \<open>A poll that reads a non-empty chunk of at most 1024 bytes.\<close>

lemma poll_feed:
  assumes ne: "c \<noteq> []" and len: "length c \<le> 1024"
  shows "poll SensorData (feed c) s
      = (if length (findIndexesOfMagicWord (dataBuffer s @ c)) < 2
         then Inr (0, s\<lparr>dataBuffer := dataBuffer s @ c\<rparr>)
         else carve SensorData (findIndexesOfMagicWord (dataBuffer s @ c))
                (s\<lparr>dataBuffer := dataBuffer s @ c\<rparr>))"
proof -
  have "min (length c) 1024 = length c" using len by simp
  moreover have "\<not> length c < 1" using ne by (cases c) auto
  ultimately show ?thesis
    unfolding poll_def feed_def Let_def by (simp del: One_nat_def)
qed

text \<open>When the extended buffer holds no marker or starts with one, and holds at most 256
  markers, the poll returns the closed form.\<close>

lemma poll_clean:
  assumes ne: "c \<noteq> []" and len: "length c \<le> 1024"
    and clean: "findIndexesOfMagicWord (dataBuffer s @ c) = []
                  \<or> hd (findIndexesOfMagicWord (dataBuffer s @ c)) = 0"
    and few: "length (findIndexesOfMagicWord (dataBuffer s @ c)) \<le> 256"
  shows "poll SensorData (feed c) s = Inr (settle SensorData s (dataBuffer s @ c))"
proof (cases "length (findIndexesOfMagicWord (dataBuffer s @ c)) < 2")
  case True
  have "last (0 # findIndexesOfMagicWord (dataBuffer s @ c)) = 0"
  proof (cases "findIndexesOfMagicWord (dataBuffer s @ c)")
    case Nil
    then show ?thesis by simp
  next
    case (Cons i rest)
    with True have "rest = []" by simp
    with Cons clean show ?thesis by simp
  qed
  then have "settle SensorData s (dataBuffer s @ c) = (0, s\<lparr>dataBuffer := dataBuffer s @ c\<rparr>)"
    using True by (simp add: settle_def spans_short)
  then show ?thesis using True by (simp only: poll_feed [OF ne len] if_True)
next
  case False
  define s1 where "s1 = s\<lparr>dataBuffer := dataBuffer s @ c\<rparr>"
  define I where "I = findIndexesOfMagicWord (dataBuffer s @ c)"
  have b1: "dataBuffer s1 = dataBuffer s @ c" and q1: "decodedFrameBuffer s1 = decodedFrameBuffer s"
    by (simp_all add: s1_def)
  have two: "2 \<le> length I" using False by (simp add: I_def)
  then have ne': "I \<noteq> []" by auto
  with clean have z: "hd I = 0" by (simp add: I_def)
  have I1: "I = findIndexesOfMagicWord (dataBuffer s1)" by (simp add: I_def b1)
  have few': "length I \<le> 256" using few by (simp add: I_def)
  have c: "carve SensorData I s1
      = Inr (int (length I) - 1,
            s1\<lparr>dataBuffer := drop (last I) (dataBuffer s1),
              decodedFrameBuffer :=
                decodedFrameBuffer s1 @ map SensorData (spans (dataBuffer s1) I)\<rparr>)"
    using I1 two few' z by (rule carve_clean)
  have n: "int (length I) - 1 = int (length I - 1)" using two by simp
  have l: "last (0 # I) = last I" using ne' by simp
  have "settle SensorData s (dataBuffer s @ c)
      = (int (length I) - 1,
            s1\<lparr>dataBuffer := drop (last I) (dataBuffer s1),
              decodedFrameBuffer :=
                decodedFrameBuffer s1 @ map SensorData (spans (dataBuffer s1) I)\<rparr>)"
    unfolding settle_def I_def [symmetric] n l b1 q1 by (simp add: s1_def)
  with c have "carve SensorData I s1 = Inr (settle SensorData s (dataBuffer s @ c))" by simp
  then show ?thesis
    using False unfolding poll_feed [OF ne len] I_def s1_def by (simp only: if_False)
qed

text \<open>Two polls in a row give the frames, the count and the buffer of one poll over
  the joined input.\<close>

lemma settle_compose:
  assumes st: "settle SensorData s B1 = (n1, s1)"
  shows "settle SensorData s1 (dataBuffer s1 @ Y)
           = (fst (settle SensorData s (B1 @ Y)) - n1, snd (settle SensorData s (B1 @ Y)))"
proof (cases "findIndexesOfMagicWord B1 = []")
  case True
  with st have "n1 = 0" and "s1 = s\<lparr>dataBuffer := B1\<rparr>" by (auto simp: settle_def spans_def)
  then show ?thesis by (simp add: settle_def)
next
  case False
  define L where "L = last (findIndexesOfMagicWord B1)"
  define new where "new = filter (\<lambda>i. \<not> i + 8 \<le> length B1) (findIndexesOfMagicWord (B1 @ Y))"
  note cut = findIndexes_after_cut [OF False L_def new_def]
  let ?I1 = "findIndexesOfMagicWord B1"
  have n1: "n1 = int (length ?I1 - 1)"
    and b1: "dataBuffer s1 = drop L B1"
    and q1: "decodedFrameBuffer s1 = decodedFrameBuffer s @ map SensorData (spans B1 ?I1)"
    and s1: "s1\<lparr>dataBuffer := X, decodedFrameBuffer := Z\<rparr> = s\<lparr>dataBuffer := X, decodedFrameBuffer := Z\<rparr>" for X Z
    using st False by (auto simp: settle_def L_def)
  have cnt: "int (length (0 # map (\<lambda>i. i - L) new) - 1) = int (length (?I1 @ new) - 1) - n1"
    using False n1 by (cases ?I1) auto
  have "last (0 # map (\<lambda>i. i - L) new) + L = last (0 # ?I1 @ new)"
  proof (cases "new = []")
    case True
    with False show ?thesis by (simp add: L_def)
  next
    case new: False
    then have "last new \<in> set new" by simp
    with cut(3) have "L < last new" by blast
    with new show ?thesis by (simp add: last_map)
  qed
  then have buf: "drop (last (0 # map (\<lambda>i. i - L) new)) (drop L B1 @ Y)
      = drop (last (0 # ?I1 @ new)) (B1 @ Y)"
    using cut(4) by (simp add: add.commute)
  have "spans (drop L (B1 @ Y)) (map (\<lambda>i. i - L) (L # new)) = spans (B1 @ Y) (L # new)"
    using cut(3) by (intro spans_shift) (auto simp: less_imp_le)
  then have sp2: "spans (drop L B1 @ Y) (0 # map (\<lambda>i. i - L) new) = spans (B1 @ Y) (L # new)"
    using cut(4) by simp
  have "\<forall>i \<in> set ?I1. i \<le> length B1" using findIndexes_bound [of _ B1] by fastforce
  then have sp1: "spans (B1 @ Y) ?I1 = spans B1 ?I1" by (rule spans_prefix)
  have sp: "spans B1 ?I1 @ spans (drop L B1 @ Y) (0 # map (\<lambda>i. i - L) new)
      = spans (B1 @ Y) (?I1 @ new)"
    using spans_append [OF False, of "B1 @ Y" new] sp1 sp2 by (simp add: L_def)
  have "settle SensorData s1 (dataBuffer s1 @ Y)
      = (int (length (0 # map (\<lambda>i. i - L) new) - 1),
         s1\<lparr>dataBuffer := drop (last (0 # 0 # map (\<lambda>i. i - L) new)) (drop L B1 @ Y),
            decodedFrameBuffer := decodedFrameBuffer s1
              @ map SensorData (spans (drop L B1 @ Y) (0 # map (\<lambda>i. i - L) new))\<rparr>)"
    by (simp only: settle_def b1 cut(2))
  also have "last (0 # 0 # map (\<lambda>i. i - L) new) = last (0 # map (\<lambda>i. i - L) new)" by simp
  also have "(int (length (0 # map (\<lambda>i. i - L) new) - 1),
         s1\<lparr>dataBuffer := drop (last (0 # map (\<lambda>i. i - L) new)) (drop L B1 @ Y),
            decodedFrameBuffer := decodedFrameBuffer s1
              @ map SensorData (spans (drop L B1 @ Y) (0 # map (\<lambda>i. i - L) new))\<rparr>)
      = (int (length (?I1 @ new) - 1) - n1,
         s\<lparr>dataBuffer := drop (last (0 # ?I1 @ new)) (B1 @ Y),
           decodedFrameBuffer := decodedFrameBuffer s
              @ map SensorData (spans (B1 @ Y) (?I1 @ new))\<rparr>)"
    by (simp only: cnt s1 q1 buf sp [symmetric] map_append append_assoc)
  also have "\<dots> = (fst (settle SensorData s (B1 @ Y)) - n1, snd (settle SensorData s (B1 @ Y)))"
    by (simp only: settle_def cut(1) fst_conv snd_conv)
  finally show ?thesis .
qed

lemma settle_settled:
  assumes "length (findIndexesOfMagicWord (dataBuffer s)) < 2"
    and "findIndexesOfMagicWord (dataBuffer s) = [] \<or> hd (findIndexesOfMagicWord (dataBuffer s)) = 0"
  shows "settle SensorData s (dataBuffer s) = (0, s)"
proof -
  have "last (0 # findIndexesOfMagicWord (dataBuffer s)) = 0"
  proof (cases "findIndexesOfMagicWord (dataBuffer s)")
    case Nil
    then show ?thesis by simp
  next
    case (Cons i rest)
    with assms(1) have "rest = []" by simp
    with Cons assms(2) show ?thesis by simp
  qed
  then show ?thesis using assms(1) by (simp add: settle_def spans_short)
qed

lemma settled_after:
  assumes st: "settle SensorData s B1 = (n1, s1)"
    and clean: "findIndexesOfMagicWord (B1 @ Y) = [] \<or> hd (findIndexesOfMagicWord (B1 @ Y)) = 0"
  shows "length (findIndexesOfMagicWord (dataBuffer s1)) < 2"
    and "findIndexesOfMagicWord (dataBuffer s1 @ Y) = []
           \<or> hd (findIndexesOfMagicWord (dataBuffer s1 @ Y)) = 0"
proof -
  have b1: "dataBuffer s1 = drop (last (0 # findIndexesOfMagicWord B1)) B1"
    using st by (auto simp: settle_def)
  show "length (findIndexesOfMagicWord (dataBuffer s1)) < 2"
  proof (cases "findIndexesOfMagicWord B1 = []")
    case True
    then show ?thesis by (simp add: b1)
  next
    case False
    have "findIndexesOfMagicWord (drop (last (findIndexesOfMagicWord B1)) B1 @ [])
        = 0 # map (\<lambda>i. i - last (findIndexesOfMagicWord B1))
                (filter (\<lambda>i. \<not> i + 8 \<le> length B1) (findIndexesOfMagicWord (B1 @ [])))"
      by (rule findIndexes_after_cut(2) [OF False refl refl])
    moreover have "filter (\<lambda>i. \<not> i + 8 \<le> length B1) (findIndexesOfMagicWord B1) = []"
      using findIndexes_bound [of _ B1] by (simp add: filter_empty_conv)
    ultimately show ?thesis using False by (simp add: b1)
  qed
  show "findIndexesOfMagicWord (dataBuffer s1 @ Y) = []
           \<or> hd (findIndexesOfMagicWord (dataBuffer s1 @ Y)) = 0"
  proof (cases "findIndexesOfMagicWord B1 = []")
    case True
    with clean show ?thesis by (simp add: b1)
  next
    case False
    have "findIndexesOfMagicWord (drop (last (findIndexesOfMagicWord B1)) B1 @ Y)
        = 0 # map (\<lambda>i. i - last (findIndexesOfMagicWord B1))
                (filter (\<lambda>i. \<not> i + 8 \<le> length B1) (findIndexesOfMagicWord (B1 @ Y)))"
      by (rule findIndexes_after_cut(2) [OF False refl refl])
    then show ?thesis using False by (simp add: b1)
  qed
qed

text \<open>
  From a state whose buffer holds fewer than two markers, successive polls over chunks
  of at most 1024 bytes each return without fault; the total count, the frames and the
  final buffer depend only on the concatenation of the chunks, as long as no byte
  precedes the first marker of the whole input.
\<close>

lemma poll_chunks_settle:
  assumes "length (findIndexesOfMagicWord (dataBuffer s)) < 2"
    and "\<forall>c \<in> set chunks. length c \<le> 1024"
    and "findIndexesOfMagicWord (dataBuffer s @ concat chunks) = []
           \<or> hd (findIndexesOfMagicWord (dataBuffer s @ concat chunks)) = 0"
  shows "poll_chunks SensorData chunks s
           = Inr (settle SensorData s (dataBuffer s @ concat chunks))"
  using assms
proof (induction chunks arbitrary: s)
  case Nil
  then show ?case using settle_settled [of s SensorData] by simp
next
  case (Cons c cs)
  show ?case
  proof (cases "c = []")
    case True
    have "poll SensorData (feed c) s = Inr (0, s)" using True by (simp add: feed_def poll_def)
    moreover have "poll_chunks SensorData cs s
        = Inr (settle SensorData s (dataBuffer s @ concat cs))"
      using Cons.prems True by (intro Cons.IH) simp_all
    ultimately show ?thesis using True by (simp add: and_then_def split: prod.splits)
  next
    case False
    have len: "length c \<le> 1024" using Cons.prems(2) by simp
    have clean: "findIndexesOfMagicWord ((dataBuffer s @ c) @ concat cs) = []
           \<or> hd (findIndexesOfMagicWord ((dataBuffer s @ c) @ concat cs)) = 0"
      using Cons.prems(3) by simp
    obtain n1 s1 where st: "settle SensorData s (dataBuffer s @ c) = (n1, s1)"
      by (cases "settle SensorData s (dataBuffer s @ c)") auto
    have p: "poll SensorData (feed c) s = Inr (n1, s1)"
      using poll_clean [OF False len clean_prefix [OF clean]
          few_after_chunk [OF Cons.prems(1) len], of SensorData] st by simp
    have "poll_chunks SensorData cs s1
        = Inr (settle SensorData s1 (dataBuffer s1 @ concat cs))"
      using settled_after [OF st clean] Cons.prems(2) by (intro Cons.IH) simp_all
    also have "\<dots> = Inr (fst (settle SensorData s ((dataBuffer s @ c) @ concat cs)) - n1,
                          snd (settle SensorData s ((dataBuffer s @ c) @ concat cs)))"
      using settle_compose [OF st] by simp
    finally show ?thesis using p by (simp add: and_then_def)
  qed
qed

text \<open>
  Fragmentation invariance where it holds: if the input is at most 1024 bytes long (so
  that one poll can read it) and no byte precedes its first marker, then feeding it in
  chunks gives the same total count and the same final state as feeding it in one poll.
\<close>

lemma fragmentation_invariance_clean:
  assumes settled: "length (findIndexesOfMagicWord (dataBuffer s)) < 2"
    and len: "length (concat chunks) \<le> 1024"
    and clean: "findIndexesOfMagicWord (dataBuffer s @ concat chunks) = []
           \<or> hd (findIndexesOfMagicWord (dataBuffer s @ concat chunks)) = 0"
  shows "poll_chunks SensorData chunks s = poll SensorData (feed (concat chunks)) s"
proof -
  have "length c \<le> length (concat chunks)" if "c \<in> set chunks" for c
    using that by (induction chunks) auto
  with len have sizes: "\<forall>c \<in> set chunks. length c \<le> 1024" by fastforce
  have a: "poll_chunks SensorData chunks s
      = Inr (settle SensorData s (dataBuffer s @ concat chunks))"
    using settled sizes clean by (rule poll_chunks_settle)
  have "poll_chunks SensorData [concat chunks] s
      = Inr (settle SensorData s (dataBuffer s @ concat [concat chunks]))"
    using settled len clean by (intro poll_chunks_settle) simp_all
  then have "poll SensorData (feed (concat chunks)) s
      = Inr (settle SensorData s (dataBuffer s @ concat chunks))"
    by (cases "poll SensorData (feed (concat chunks)) s") (auto simp: and_then_def)
  with a show ?thesis by simp
qed

text \<open>An instance: marker and payload A in a first chunk, then marker, payload B and
  marker in a second one.\<close>

lemma fragmentation_invariance_clean_example:
  "poll_chunks (\<lambda>frame. frame)
     [pattern @ [0x11, 0x12, 0x13, 0x14, 0x15],
      pattern @ [0x21, 0x22, 0x23, 0x24, 0x25] @ pattern]
     \<lparr>dataBuffer = [], decodedFrameBuffer = []\<rparr>
   = poll (\<lambda>frame. frame)
       (feed (concat [pattern @ [0x11, 0x12, 0x13, 0x14, 0x15],
                      pattern @ [0x21, 0x22, 0x23, 0x24, 0x25] @ pattern]))
       \<lparr>dataBuffer = [], decodedFrameBuffer = []\<rparr>"
proof -
  let ?s = "\<lparr>dataBuffer = [], decodedFrameBuffer = [] :: byte list list\<rparr>"
  let ?chunks = "[pattern @ [0x11, 0x12, 0x13, 0x14, 0x15],
                  pattern @ [0x21, 0x22, 0x23, 0x24, 0x25] @ pattern]"
  have h1: "length (findIndexesOfMagicWord (dataBuffer ?s)) < 2" by code_simp
  have h2: "length (concat ?chunks) \<le> 1024" by code_simp
  have h3: "findIndexesOfMagicWord (dataBuffer ?s @ concat ?chunks) = []
              \<or> hd (findIndexesOfMagicWord (dataBuffer ?s @ concat ?chunks)) = 0"
    by code_simp
  show ?thesis by (rule fragmentation_invariance_clean [OF h1 h2 h3])
qed

section \<open>Where poll departs from the frame spans\<close>

text \<open>
  Claim C2 (the code departs from it). The claim takes the sublist for two consecutive
  indexes to be the bytes from the first up to, not including, the second. For the
  buffer made of the marker, five payload bytes and the marker again, the locator finds
  the indexes 0 and 13, and \<open>splitIntoSublistsByIndexes\<close> returns one sublist of 12
  bytes: the span from 0 to 13 without its last byte.
\<close>

theorem split_drops_last_byte:
  "findIndexesOfMagicWord (pattern @ [0x11, 0x12, 0x13, 0x14, 0x15] @ pattern) = [0, 13] \<and>
   splitIntoSublistsByIndexes (pattern @ [0x11, 0x12, 0x13, 0x14, 0x15] @ pattern) [0, 13]
     = Inr [pattern @ [0x11, 0x12, 0x13, 0x14]] \<and>
   take (13 - 0) (drop 0 (pattern @ [0x11, 0x12, 0x13, 0x14, 0x15] @ pattern))
     = pattern @ [0x11, 0x12, 0x13, 0x14, 0x15]"
  by code_simp

text \<open>
  Claim C3 (the code departs from it). The claim takes the buffer after a carving
  \<open>poll\<close> to be the bytes from the last index on. With nine bytes before the first
  marker the indexes are 9 and 22; the bytes from 22 on are the marker and the second
  payload, and \<open>poll\<close> leaves the marker, the first byte of the first payload and the
  last four bytes of the second payload.
\<close>

theorem poll_garbage_retains_other_bytes:
  "findIndexesOfMagicWord
     ([0xA1, 0xA2, 0xA3, 0xA4, 0xA5, 0xA6, 0xA7, 0xA8, 0xA9] @ pattern
        @ [0x11, 0x12, 0x13, 0x14, 0x15] @ pattern @ [0x21, 0x22, 0x23, 0x24, 0x25]) = [9, 22] \<and>
   poll (\<lambda>frame. frame)
     (Fionread 35 (Some ([0xA1, 0xA2, 0xA3, 0xA4, 0xA5, 0xA6, 0xA7, 0xA8, 0xA9] @ pattern
        @ [0x11, 0x12, 0x13, 0x14, 0x15] @ pattern @ [0x21, 0x22, 0x23, 0x24, 0x25])))
     \<lparr>dataBuffer = [], decodedFrameBuffer = []\<rparr>
     = Inr (1, \<lparr>dataBuffer = pattern @ [0x11, 0x22, 0x23, 0x24, 0x25],
                decodedFrameBuffer = [[0x12, 0x13, 0x14, 0x15] @ pattern]\<rparr>) \<and>
   drop 22 ([0xA1, 0xA2, 0xA3, 0xA4, 0xA5, 0xA6, 0xA7, 0xA8, 0xA9] @ pattern
        @ [0x11, 0x12, 0x13, 0x14, 0x15] @ pattern @ [0x21, 0x22, 0x23, 0x24, 0x25])
     = pattern @ [0x21, 0x22, 0x23, 0x24, 0x25]"
  by code_simp

text \<open>
  Claim C4 (the code departs from it). The scenario of three garbage bytes, the marker,
  payload A, the marker and payload B: the first \<open>poll\<close> returns 1 and leaves the marker
  and payload B in the buffer, and a \<open>poll\<close> with no bytes returns 0, as the claim
  says; the frame carved by the first \<open>poll\<close> is the last five bytes of the marker,
  payload A and the first two bytes of the next marker, and the frame carved by the
  third \<open>poll\<close> is the marker and the first four bytes of payload B.
\<close>

theorem scenario_frames:
  "poll (\<lambda>frame. frame)
     (Fionread 29 (Some ([0xAA, 0xBB, 0xCC] @ pattern @ [0x11, 0x12, 0x13, 0x14, 0x15]
        @ pattern @ [0x21, 0x22, 0x23, 0x24, 0x25])))
     \<lparr>dataBuffer = [], decodedFrameBuffer = []\<rparr>
     = Inr (1, \<lparr>dataBuffer = pattern @ [0x21, 0x22, 0x23, 0x24, 0x25],
                decodedFrameBuffer =
                  [[0x03, 0x06, 0x05, 0x08, 0x07, 0x11, 0x12, 0x13, 0x14, 0x15, 0x02, 0x01]]\<rparr>) \<and>
   poll (\<lambda>frame. frame) (Fionread 0 (Some []))
     \<lparr>dataBuffer = pattern @ [0x21, 0x22, 0x23, 0x24, 0x25],
      decodedFrameBuffer =
        [[0x03, 0x06, 0x05, 0x08, 0x07, 0x11, 0x12, 0x13, 0x14, 0x15, 0x02, 0x01]]\<rparr>
     = Inr (0, \<lparr>dataBuffer = pattern @ [0x21, 0x22, 0x23, 0x24, 0x25],
                decodedFrameBuffer =
                  [[0x03, 0x06, 0x05, 0x08, 0x07, 0x11, 0x12, 0x13, 0x14, 0x15, 0x02, 0x01]]\<rparr>) \<and>
   poll (\<lambda>frame. frame) (Fionread 8 (Some pattern))
     \<lparr>dataBuffer = pattern @ [0x21, 0x22, 0x23, 0x24, 0x25],
      decodedFrameBuffer =
        [[0x03, 0x06, 0x05, 0x08, 0x07, 0x11, 0x12, 0x13, 0x14, 0x15, 0x02, 0x01]]\<rparr>
     = Inr (1, \<lparr>dataBuffer = pattern,
                decodedFrameBuffer =
                  [[0x03, 0x06, 0x05, 0x08, 0x07, 0x11, 0x12, 0x13, 0x14, 0x15, 0x02, 0x01],
                   pattern @ [0x21, 0x22, 0x23, 0x24]]\<rparr>)"
  by code_simp

text \<open>
  Claim C1 (the code departs from it). Three garbage bytes, then marker, payload A,
  marker, payload B, marker: 37 bytes. Read by one \<open>poll\<close>, two frames are carved; read
  by two polls, the first 29 bytes and then the last 8, two frames are carved as well,
  but the second frame is another one, so the concatenations of the carved bytes differ.
\<close>

theorem fragmentation_changes_frames:
  "poll (\<lambda>frame. frame)
     (feed ([0xAA, 0xBB, 0xCC] @ pattern @ [0x11, 0x12, 0x13, 0x14, 0x15]
        @ pattern @ [0x21, 0x22, 0x23, 0x24, 0x25] @ pattern))
     \<lparr>dataBuffer = [], decodedFrameBuffer = []\<rparr>
     = Inr (2, \<lparr>dataBuffer = pattern,
                decodedFrameBuffer =
                  [[0x03, 0x06, 0x05, 0x08, 0x07, 0x11, 0x12, 0x13, 0x14, 0x15, 0x02, 0x01],
                   [0x03, 0x06, 0x05, 0x08, 0x07, 0x21, 0x22, 0x23, 0x24, 0x25, 0x02, 0x01]]\<rparr>) \<and>
   poll_chunks (\<lambda>frame. frame)
     [[0xAA, 0xBB, 0xCC] @ pattern @ [0x11, 0x12, 0x13, 0x14, 0x15]
        @ pattern @ [0x21, 0x22, 0x23, 0x24, 0x25], pattern]
     \<lparr>dataBuffer = [], decodedFrameBuffer = []\<rparr>
     = Inr (2, \<lparr>dataBuffer = pattern,
                decodedFrameBuffer =
                  [[0x03, 0x06, 0x05, 0x08, 0x07, 0x11, 0x12, 0x13, 0x14, 0x15, 0x02, 0x01],
                   [0x02, 0x01, 0x04, 0x03, 0x06, 0x05, 0x08, 0x07, 0x21, 0x22, 0x23, 0x24]]\<rparr>) \<and>
   concat [[0x03, 0x06, 0x05, 0x08, 0x07, 0x11, 0x12, 0x13, 0x14, 0x15, 0x02, 0x01],
           [0x03, 0x06, 0x05, 0x08, 0x07, 0x21, 0x22, 0x23, 0x24, 0x25, 0x02, 0x01 :: byte]]
     \<noteq> concat [[0x03, 0x06, 0x05, 0x08, 0x07, 0x11, 0x12, 0x13, 0x14, 0x15, 0x02, 0x01],
           [0x02, 0x01, 0x04, 0x03, 0x06, 0x05, 0x08, 0x07, 0x21, 0x22, 0x23, 0x24]]"
  by code_simp

section \<open>Properties of the decoded frame queue\<close>

text \<open>
  Claim C8. For a count from 0 up to the length of the queue,
  \<open>getDecodedFramesFromTop\<close> with removal returns the first entries in their order and
  a following \<open>getDecodedFrameBuffer\<close> returns the remaining entries in their order;
  without removal it returns the same entries and leaves the state as it was.
\<close>

theorem queue_fifo:
  assumes "0 \<le> num" and "num \<le> int (length (decodedFrameBuffer s))"
  shows "\<exists>s'. getDecodedFramesFromTop num True s
                = Inr (take (nat num) (decodedFrameBuffer s), s') \<and>
              getDecodedFrameBuffer s' = drop (nat num) (decodedFrameBuffer s) \<and>
              dataBuffer s' = dataBuffer s \<and>
              getDecodedFramesFromTop num False s
                = Inr (take (nat num) (decodedFrameBuffer s), s)"
  using assms
  by (simp add: getDecodedFramesFromTop_def getDecodedFrameBuffer_def and_then_def
      subvector_def erase_def)

theorem queue_fifo_witness:
  "(0::int) \<le> 2 \<and>
   (2::int) \<le> int (length (decodedFrameBuffer
      \<lparr>dataBuffer = [0x02], decodedFrameBuffer = [''a'', ''b'', ''c'']\<rparr>)) \<and>
   (\<exists>s'. getDecodedFramesFromTop 2 True
            \<lparr>dataBuffer = [0x02], decodedFrameBuffer = [''a'', ''b'', ''c'']\<rparr>
            = Inr ([''a'', ''b''], s') \<and>
         getDecodedFrameBuffer s' = [''c''] \<and>
         dataBuffer s' = [0x02] \<and>
         getDecodedFramesFromTop 2 False
            \<lparr>dataBuffer = [0x02], decodedFrameBuffer = [''a'', ''b'', ''c'']\<rparr>
            = Inr ([''a'', ''b''],
                   \<lparr>dataBuffer = [0x02], decodedFrameBuffer = [''a'', ''b'', ''c'']\<rparr>))"
proof -
  have h1: "(0::int) \<le> 2" by simp
  have h2: "(2::int) \<le> int (length (decodedFrameBuffer
      \<lparr>dataBuffer = [0x02], decodedFrameBuffer = [''a'', ''b'', ''c'']\<rparr>))" by simp
  show ?thesis using h1 h2 queue_fifo [OF h1 h2] by simp
qed

section \<open>Properties of the configuration upload\<close>

lemma str_find_iff: "str_find s pat \<noteq> None \<longleftrightarrow> (\<exists>u v. s = u @ pat @ v)"
proof (induction s)
  case Nil
  show ?case by simp
next
  case (Cons c cs)
  show ?case
  proof (cases "take (length pat) (c # cs) = pat")
    case True
    then have "c # cs = [] @ pat @ drop (length pat) (c # cs)"
      by (metis append_Nil append_take_drop_id)
    then have "\<exists>u v. c # cs = u @ pat @ v" by blast
    with True show ?thesis by simp
  next
    case False
    have "(\<exists>u v. c # cs = u @ pat @ v) \<longleftrightarrow> (\<exists>u v. cs = u @ pat @ v)"
    proof
      assume "\<exists>u v. c # cs = u @ pat @ v"
      then obtain u v where uv: "c # cs = u @ pat @ v" by blast
      show "\<exists>u v. cs = u @ pat @ v"
      proof (cases u)
        case Nil
        with uv have "take (length pat) (c # cs) = pat" by simp
        with False show ?thesis by simp
      next
        case (Cons a u')
        with uv have "cs = u' @ pat @ v" by simp
        then show ?thesis by blast
      qed
    next
      assume "\<exists>u v. cs = u @ pat @ v"
      then obtain u v where "cs = u @ pat @ v" by blast
      then have "c # cs = (c # u) @ pat @ v" by simp
      then show "\<exists>u v. c # cs = u @ pat @ v" by blast
    qed
    with False Cons.IH show ?thesis by simp
  qed
qed

lemma response_loop_acknowledged:
  "response_loop evs response = (Acknowledged, response', evs') \<Longrightarrow>
   str_find response' ''Done'' \<noteq> None \<or> str_find response' ''Skipped'' \<noteq> None"
proof (induction evs response rule: response_loop.induct)
  case (1 response)
  then show ?case by (simp split: if_splits)
next
  case (2 ev evs response)
  then show ?case
    by (auto split: if_splits io_event.splits option.splits)
qed

lemma send_lines_log:
  "send_lines configFileLines evs = (res, exchanges) \<Longrightarrow>
   (\<exists>rest. filter (\<lambda>l. l \<noteq> [] \<and> hd l \<noteq> CHR ''%'') configFileLines = map fst exchanges @ rest) \<and>
   (res = Returned 1 \<longrightarrow>
      map fst exchanges = filter (\<lambda>l. l \<noteq> [] \<and> hd l \<noteq> CHR ''%'') configFileLines \<and>
      (\<forall>x \<in> set exchanges.
         str_find (snd x) ''Done'' \<noteq> None \<or> str_find (snd x) ''Skipped'' \<noteq> None)) \<and>
   (\<forall>x \<in> set (butlast exchanges).
      str_find (snd x) ''Done'' \<noteq> None \<or> str_find (snd x) ''Skipped'' \<noteq> None)"
proof (induction configFileLines arbitrary: evs res exchanges)
  case Nil
  then show ?case by simp
next
  case (Cons l rest)
  show ?case
  proof (cases "l = [] \<or> hd l = CHR ''%''")
    case True
    with Cons.prems have "send_lines rest evs = (res, exchanges)" by simp
    from Cons.IH [OF this] True show ?thesis by auto
  next
    case False
    obtain w response evs' where rl: "response_loop evs [] = (w, response, evs')"
      by (cases "response_loop evs []") auto
    show ?thesis
    proof (cases w)
      case Acknowledged
      obtain r' log' where sl: "send_lines rest evs' = (r', log')"
        by (cases "send_lines rest evs'") auto
      from Cons.prems False rl Acknowledged sl
      have res: "res = r'" and ex: "exchanges = (l, response) # log'" by auto
      have ack: "str_find response ''Done'' \<noteq> None \<or> str_find response ''Skipped'' \<noteq> None"
        using response_loop_acknowledged rl Acknowledged by blast
      from Cons.IH [OF sl] False res ex ack show ?thesis by auto
    next
      case IoctlFailed
      with Cons.prems False rl show ?thesis by auto
    next
      case ReadFailed
      with Cons.prems False rl show ?thesis by auto
    next
      case Waiting
      with Cons.prems False rl show ?thesis by auto
    qed
  qed
qed

text \<open>The wait for an answer, in terms of what the port delivers.\<close>

lemma has_ack_find:
  "has_ack response \<longleftrightarrow>
     str_find response ''Done'' \<noteq> None \<or> str_find response ''Skipped'' \<noteq> None"
  unfolding has_ack_def str_find_iff ..

lemma response_loop_has_ack:
  "has_ack response \<Longrightarrow> response_loop evs response = (Acknowledged, response, evs)"
  by (cases evs) (simp_all add: has_ack_find)

lemma reads_Cons: "reads (ev # evs) = delivered ev @ reads evs"
  by (simp add: reads_def)

lemma response_loop_step:
  assumes "\<not> has_ack response" and "healthy ev"
  shows "response_loop (ev # evs) response = response_loop evs (response @ delivered ev)"
proof (cases ev)
  case FionreadError
  with assms(2) show ?thesis by simp
next
  case (Fionread n incoming)
  with assms show ?thesis by (cases incoming) (auto simp: has_ack_find)
qed

lemma response_loop_answers:
  assumes "\<forall>ev \<in> set seg. healthy ev"
    and "has_ack (response @ reads seg)"
    and "\<forall>k < length seg. \<not> has_ack (response @ reads (take k seg))"
  shows "response_loop (seg @ evs) response = (Acknowledged, response @ reads seg, evs)"
  using assms
proof (induction seg arbitrary: response)
  case Nil
  then show ?case by (simp add: reads_def response_loop_has_ack)
next
  case (Cons ev seg)
  from Cons.prems(3) have "\<not> has_ack (response @ reads (take 0 (ev # seg)))" by blast
  then have na: "\<not> has_ack response" by (simp add: reads_def)
  have h: "healthy ev" using Cons.prems(1) by simp
  have later: "\<forall>k < length seg. \<not> has_ack ((response @ delivered ev) @ reads (take k seg))"
  proof (intro allI impI)
    fix k assume "k < length seg"
    then have "Suc k < length (ev # seg)" by simp
    with Cons.prems(3) have "\<not> has_ack (response @ reads (take (Suc k) (ev # seg)))" by blast
    then show "\<not> has_ack ((response @ delivered ev) @ reads (take k seg))"
      by (simp add: reads_Cons)
  qed
  have "response_loop (seg @ evs) (response @ delivered ev)
      = (Acknowledged, (response @ delivered ev) @ reads seg, evs)"
    using Cons.prems(1,2) later by (intro Cons.IH) (simp_all add: reads_Cons)
  then show ?case using response_loop_step [OF na h] by (simp add: reads_Cons)
qed

lemma response_loop_silent:
  assumes "\<forall>ev \<in> set tail. healthy ev"
    and "\<forall>k \<le> length tail. \<not> has_ack (response @ reads (take k tail))"
  shows "response_loop tail response = (Waiting, response @ reads tail, [])"
    and "response_loop (tail @ FionreadError # after) response
           = (IoctlFailed, response @ reads tail, after)"
    and "0 < n \<Longrightarrow> response_loop (tail @ Fionread n None # after) response
           = (ReadFailed, response @ reads tail, after)"
  using assms
proof (induction tail arbitrary: response)
  case Nil
  {
    case 1 then show ?case by (simp add: reads_def has_ack_find)
  next
    case 2 then show ?case by (simp add: reads_def has_ack_find)
  next
    case 3 then show ?case by (simp add: reads_def has_ack_find)
  }
next
  case (Cons ev tail)
  {
    case 1
    from 1(2) have "\<not> has_ack (response @ reads (take 0 (ev # tail)))" by blast
    then have na: "\<not> has_ack response" by (simp add: reads_def)
    have later: "\<forall>k \<le> length tail. \<not> has_ack ((response @ delivered ev) @ reads (take k tail))"
      using 1(2) by (auto simp: reads_Cons dest: spec [of _ "Suc k" for k])
    show ?case
      using Cons.IH(1) [of "response @ delivered ev"] 1(1) later response_loop_step [OF na]
      by (simp add: reads_Cons)
  next
    case 2
    from 2(2) have "\<not> has_ack (response @ reads (take 0 (ev # tail)))" by blast
    then have na: "\<not> has_ack response" by (simp add: reads_def)
    have later: "\<forall>k \<le> length tail. \<not> has_ack ((response @ delivered ev) @ reads (take k tail))"
      using 2(2) by (auto simp: reads_Cons dest: spec [of _ "Suc k" for k])
    show ?case
      using Cons.IH(2) [of "response @ delivered ev"] 2(1) later response_loop_step [OF na]
      by (simp add: reads_Cons)
  next
    case 3
    from 3(3) have "\<not> has_ack (response @ reads (take 0 (ev # tail)))" by blast
    then have na: "\<not> has_ack response" by (simp add: reads_def)
    have later: "\<forall>k \<le> length tail. \<not> has_ack ((response @ delivered ev) @ reads (take k tail))"
      using 3(3) by (auto simp: reads_Cons dest: spec [of _ "Suc k" for k])
    show ?case
      using Cons.IH(3) [of "response @ delivered ev"] 3(1,2) later response_loop_step [OF na]
      by (simp add: reads_Cons)
  }
qed

text \<open>The upload over a port that answers every line, and over one that stops.\<close>

lemma send_lines_skip:
  "l = [] \<or> hd l = CHR ''%'' \<Longrightarrow> send_lines (l # rest) evs = send_lines rest evs"
  by simp

lemma send_lines_acknowledged:
  assumes "\<not> (l = [] \<or> hd l = CHR ''%'')" and "answers seg"
  shows "send_lines (l # rest) (seg @ evs)
           = (fst (send_lines rest evs), (l, reads seg) # snd (send_lines rest evs))"
proof -
  have "response_loop (seg @ evs) [] = (Acknowledged, [] @ reads seg, evs)"
    using assms(2) by (intro response_loop_answers) (simp_all add: answers_def)
  with assms(1) show ?thesis by (simp split: prod.splits)
qed

lemma send_lines_all_answered:
  "\<forall>seg \<in> set segs. answers seg \<Longrightarrow> length segs = length (kept_lines configFileLines) \<Longrightarrow>
   send_lines configFileLines (concat segs @ after)
     = (Returned 1, zip (kept_lines configFileLines) (map reads segs))"
proof (induction configFileLines arbitrary: segs)
  case Nil
  then show ?case by (simp add: kept_lines_def)
next
  case (Cons l rest)
  show ?case
  proof (cases "l = [] \<or> hd l = CHR ''%''")
    case True
    then have "kept_lines (l # rest) = kept_lines rest" by (auto simp: kept_lines_def)
    with Cons True show ?thesis by (simp only: send_lines_skip)
  next
    case False
    then have k: "kept_lines (l # rest) = l # kept_lines rest" by (auto simp: kept_lines_def)
    with Cons.prems(2) obtain seg segs' where s: "segs = seg # segs'"
      by (cases segs) auto
    have "send_lines rest (concat segs' @ after)
        = (Returned 1, zip (kept_lines rest) (map reads segs'))"
      using Cons.prems s k by (intro Cons.IH) simp_all
    moreover have "answers seg" using Cons.prems(1) s by simp
    ultimately show ?thesis
      using send_lines_acknowledged [OF False, of seg rest "concat segs' @ after"] s k by simp
  qed
qed

lemma send_lines_stopped:
  assumes "\<forall>seg \<in> set segs. answers seg" and "length segs < length (kept_lines configFileLines)"
    and "silent tail"
  shows "send_lines configFileLines (concat segs @ tail)
           = (Blocked, zip (kept_lines configFileLines) (map reads (segs @ [tail])))"
    and "send_lines configFileLines (concat segs @ tail @ FionreadError # after)
           = (Returned (- 1), zip (kept_lines configFileLines) (map reads (segs @ [tail])))"
    and "0 < n \<Longrightarrow> send_lines configFileLines (concat segs @ tail @ Fionread n None # after)
           = (Faulted OutOfRange, zip (kept_lines configFileLines) (map reads (segs @ [tail])))"
  using assms(1,2)
proof (induction configFileLines arbitrary: segs)
  case Nil
  {
    case 1 then show ?case by (simp add: kept_lines_def)
  next
    case 2 then show ?case by (simp add: kept_lines_def)
  next
    case 3 then show ?case by (simp add: kept_lines_def)
  }
next
  case (Cons l rest)
  have sil: "\<forall>ev \<in> set tail. healthy ev"
    "\<forall>k \<le> length tail. \<not> has_ack ([] @ reads (take k tail))"
    using assms(3) by (simp_all add: silent_def)
  note rl = response_loop_silent [OF sil]
  {
    case 1
    show ?case
    proof (cases "l = [] \<or> hd l = CHR ''%''")
      case True
      then have "kept_lines (l # rest) = kept_lines rest" by (auto simp: kept_lines_def)
      with Cons.IH(1) 1 True show ?thesis by (simp only: send_lines_skip)
    next
      case False
      then have k: "kept_lines (l # rest) = l # kept_lines rest" by (auto simp: kept_lines_def)
      show ?thesis
      proof (cases segs)
        case Nil
        with False k rl(1) show ?thesis by simp
      next
        case (Cons seg segs')
        with 1 k have "send_lines rest (concat segs' @ tail)
            = (Blocked, zip (kept_lines rest) (map reads (segs' @ [tail])))"
          by (intro Cons.IH(1)) simp_all
        moreover have "answers seg" using 1(1) Cons by simp
        ultimately show ?thesis
          using send_lines_acknowledged [OF False, of seg rest "concat segs' @ tail"] Cons k
          by simp
      qed
    qed
  next
    case 2
    show ?case
    proof (cases "l = [] \<or> hd l = CHR ''%''")
      case True
      then have "kept_lines (l # rest) = kept_lines rest" by (auto simp: kept_lines_def)
      with Cons.IH(2) 2 True show ?thesis by (simp only: send_lines_skip)
    next
      case False
      then have k: "kept_lines (l # rest) = l # kept_lines rest" by (auto simp: kept_lines_def)
      show ?thesis
      proof (cases segs)
        case Nil
        with False k rl(2) [of after] show ?thesis by simp
      next
        case (Cons seg segs')
        with 2 k have "send_lines rest (concat segs' @ tail @ FionreadError # after)
            = (Returned (- 1), zip (kept_lines rest) (map reads (segs' @ [tail])))"
          by (intro Cons.IH(2)) simp_all
        moreover have "answers seg" using 2(1) Cons by simp
        ultimately show ?thesis
          using send_lines_acknowledged
            [OF False, of seg rest "concat segs' @ tail @ FionreadError # after"] Cons k
          by simp
      qed
    qed
  next
    case 3
    show ?case
    proof (cases "l = [] \<or> hd l = CHR ''%''")
      case True
      then have "kept_lines (l # rest) = kept_lines rest" by (auto simp: kept_lines_def)
      with Cons.IH(3) 3 True show ?thesis by (simp only: send_lines_skip)
    next
      case False
      then have k: "kept_lines (l # rest) = l # kept_lines rest" by (auto simp: kept_lines_def)
      show ?thesis
      proof (cases segs)
        case Nil
        with False k rl(3) [OF 3(1), of after] show ?thesis by simp
      next
        case (Cons seg segs')
        with 3 k have "send_lines rest (concat segs' @ tail @ Fionread n None # after)
            = (Faulted OutOfRange, zip (kept_lines rest) (map reads (segs' @ [tail])))"
          by (intro Cons.IH(3)) simp_all
        moreover have "answers seg" using 3(2) Cons by simp
        ultimately show ?thesis
          using send_lines_acknowledged
            [OF False, of seg rest "concat segs' @ tail @ Fionread n None # after"] Cons k
          by simp
      qed
    qed
  }
qed

lemma send_lines_log_kept:
  "send_lines configFileLines evs = (res, exchanges) \<Longrightarrow>
   (\<exists>rest. kept_lines configFileLines = map fst exchanges @ rest) \<and>
   (res = Returned 1 \<longrightarrow>
      map fst exchanges = kept_lines configFileLines \<and>
      (\<forall>x \<in> set exchanges. has_ack (snd x))) \<and>
   (\<forall>x \<in> set (butlast exchanges). has_ack (snd x))"
  using send_lines_log [of configFileLines evs res exchanges]
  unfolding kept_lines_def has_ack_find by simp

lemma unhealthy_cases:
  "\<not> healthy ev \<Longrightarrow> ev = FionreadError \<or> (\<exists>n. 0 < n \<and> ev = Fionread n None)"
  by (cases ev rule: healthy.cases) auto

lemma wait_shapes:
  "(\<exists>seg evs'. evs = seg @ evs' \<and> (\<forall>ev \<in> set seg. healthy ev) \<and> has_ack (r @ reads seg) \<and>
       (\<forall>k < length seg. \<not> has_ack (r @ reads (take k seg)))) \<or>
   (\<exists>tail. (\<forall>ev \<in> set tail. healthy ev) \<and>
       (\<forall>k \<le> length tail. \<not> has_ack (r @ reads (take k tail))) \<and>
       (evs = tail \<or> (\<exists>after. evs = tail @ FionreadError # after) \<or>
        (\<exists>n after. 0 < n \<and> evs = tail @ Fionread n None # after)))"
proof (cases "has_ack r")
  case True
  then have "evs = [] @ evs \<and> (\<forall>ev \<in> set []. healthy ev) \<and> has_ack (r @ reads []) \<and>
       (\<forall>k < length ([] :: char io_event list). \<not> has_ack (r @ reads (take k [])))"
    by (simp add: reads_def)
  then show ?thesis by blast
next
  case False
  then show ?thesis
  proof (induction evs arbitrary: r)
    case Nil
    then have "(\<forall>ev \<in> set []. healthy ev) \<and>
       (\<forall>k \<le> length ([] :: char io_event list). \<not> has_ack (r @ reads (take k []))) \<and> [] = []"
      by (simp add: reads_def)
    then show ?case by blast
  next
    case (Cons ev evs)
    show ?case
    proof (cases "healthy ev")
      case False
      have "(\<forall>e \<in> set []. healthy e) \<and>
         (\<forall>k \<le> length ([] :: char io_event list). \<not> has_ack (r @ reads (take k [])))"
        using Cons.prems by (simp add: reads_def)
      moreover have "(\<exists>after. ev # evs = [] @ FionreadError # after) \<or>
          (\<exists>n after. 0 < n \<and> ev # evs = [] @ Fionread n None # after)"
        using unhealthy_cases [OF False] by auto
      ultimately show ?thesis by blast
    next
      case True
      let ?r = "r @ delivered ev"
      have pre: "\<forall>k < length (ev # seg). \<not> has_ack (r @ reads (take k (ev # seg)))"
        if "\<forall>k < length seg. \<not> has_ack (?r @ reads (take k seg))" for seg
      proof (intro allI impI)
        fix k assume "k < length (ev # seg)"
        then show "\<not> has_ack (r @ reads (take k (ev # seg)))"
          using that Cons.prems by (cases k) (simp_all add: reads_Cons reads_def)
      qed
      have pre': "\<forall>k \<le> length (ev # tail). \<not> has_ack (r @ reads (take k (ev # tail)))"
        if "\<forall>k \<le> length tail. \<not> has_ack (?r @ reads (take k tail))" for tail
      proof (intro allI impI)
        fix k assume "k \<le> length (ev # tail)"
        then show "\<not> has_ack (r @ reads (take k (ev # tail)))"
          using that Cons.prems by (cases k) (simp_all add: reads_Cons reads_def)
      qed
      show ?thesis
      proof (cases "has_ack ?r")
        case ack: True
        have "ev # evs = [ev] @ evs \<and> (\<forall>e \<in> set [ev]. healthy e) \<and> has_ack (r @ reads [ev]) \<and>
            (\<forall>k < length [ev]. \<not> has_ack (r @ reads (take k [ev])))"
          using True ack Cons.prems by (simp add: reads_def)
        then show ?thesis by blast
      next
        case nack: False
        from Cons.IH [OF nack] show ?thesis
        proof (elim disjE exE conjE)
          fix seg evs'
          assume "evs = seg @ evs'" "\<forall>e \<in> set seg. healthy e" "has_ack (?r @ reads seg)"
            "\<forall>k < length seg. \<not> has_ack (?r @ reads (take k seg))"
          then have "ev # evs = (ev # seg) @ evs' \<and> (\<forall>e \<in> set (ev # seg). healthy e) \<and>
              has_ack (r @ reads (ev # seg)) \<and>
              (\<forall>k < length (ev # seg). \<not> has_ack (r @ reads (take k (ev # seg))))"
            using True pre [of seg] by (simp add: reads_Cons)
          then show ?thesis by blast
        next
          fix tail
          assume "\<forall>e \<in> set tail. healthy e"
            "\<forall>k \<le> length tail. \<not> has_ack (?r @ reads (take k tail))" "evs = tail"
          then have "(\<forall>e \<in> set (ev # tail). healthy e) \<and>
              (\<forall>k \<le> length (ev # tail). \<not> has_ack (r @ reads (take k (ev # tail)))) \<and>
              ev # evs = ev # tail"
            using True pre' [of tail] by simp
          then show ?thesis by blast
        next
          fix tail after
          assume "\<forall>e \<in> set tail. healthy e"
            "\<forall>k \<le> length tail. \<not> has_ack (?r @ reads (take k tail))"
            "evs = tail @ FionreadError # after"
          then have "(\<forall>e \<in> set (ev # tail). healthy e) \<and>
              (\<forall>k \<le> length (ev # tail). \<not> has_ack (r @ reads (take k (ev # tail)))) \<and>
              ev # evs = (ev # tail) @ FionreadError # after"
            using True pre' [of tail] by simp
          then show ?thesis by blast
        next
          fix tail n after
          assume "\<forall>e \<in> set tail. healthy e"
            "\<forall>k \<le> length tail. \<not> has_ack (?r @ reads (take k tail))"
            "0 < n" "evs = tail @ Fionread n None # after"
          then have "(\<forall>e \<in> set (ev # tail). healthy e) \<and>
              (\<forall>k \<le> length (ev # tail). \<not> has_ack (r @ reads (take k (ev # tail)))) \<and>
              0 < n \<and> ev # evs = (ev # tail) @ Fionread n None # after"
            using True pre' [of tail] by simp
          then show ?thesis by blast
        qed
      qed
    qed
  qed
qed

text \<open>Every behaviour of the port has one of the shapes of the upload theorem.\<close>

lemma port_shapes_exhaustive:
  "(\<exists>segs after. evs = concat segs @ after \<and> (\<forall>seg \<in> set segs. answers seg) \<and>
       length segs = length kept) \<or>
   (\<exists>segs tail. (\<forall>seg \<in> set segs. answers seg) \<and> length segs < length kept \<and> silent tail \<and>
       (evs = concat segs @ tail \<or>
        (\<exists>after. evs = concat segs @ tail @ FionreadError # after) \<or>
        (\<exists>n after. 0 < n \<and> evs = concat segs @ tail @ Fionread n None # after)))"
proof (induction kept arbitrary: evs)
  case Nil
  have "evs = concat [] @ evs \<and> (\<forall>seg \<in> set []. answers seg)
      \<and> length ([] :: char io_event list list) = length ([] :: 'a list)" by simp
  then show ?case by blast
next
  case (Cons l kept)
  from wait_shapes [of evs "[]"] show ?case
  proof (elim disjE exE conjE)
    fix seg evs'
    assume e: "evs = seg @ evs'" and "\<forall>ev \<in> set seg. healthy ev" "has_ack ([] @ reads seg)"
      "\<forall>k < length seg. \<not> has_ack ([] @ reads (take k seg))"
    then have a: "answers seg" by (simp add: answers_def)
    from Cons.IH [of evs'] show ?thesis
    proof (elim disjE exE conjE)
      fix segs after
      assume "evs' = concat segs @ after" "\<forall>s \<in> set segs. answers s" "length segs = length kept"
      then have "evs = concat (seg # segs) @ after \<and> (\<forall>s \<in> set (seg # segs). answers s) \<and>
          length (seg # segs) = length (l # kept)"
        using e a by simp
      then show ?thesis by blast
    next
      fix segs tail
      assume "\<forall>s \<in> set segs. answers s" "length segs < length kept" "silent tail"
        "evs' = concat segs @ tail"
      then have "(\<forall>s \<in> set (seg # segs). answers s) \<and> length (seg # segs) < length (l # kept) \<and>
          silent tail \<and> evs = concat (seg # segs) @ tail"
        using e a by simp
      then show ?thesis by blast
    next
      fix segs tail after
      assume "\<forall>s \<in> set segs. answers s" "length segs < length kept" "silent tail"
        "evs' = concat segs @ tail @ FionreadError # after"
      then have "(\<forall>s \<in> set (seg # segs). answers s) \<and> length (seg # segs) < length (l # kept) \<and>
          silent tail \<and> evs = concat (seg # segs) @ tail @ FionreadError # after"
        using e a by simp
      then show ?thesis by blast
    next
      fix segs tail n after
      assume "\<forall>s \<in> set segs. answers s" "length segs < length kept" "silent tail"
        "0 < n" "evs' = concat segs @ tail @ Fionread n None # after"
      then have "(\<forall>s \<in> set (seg # segs). answers s) \<and> length (seg # segs) < length (l # kept) \<and>
          silent tail \<and> 0 < n \<and> evs = concat (seg # segs) @ tail @ Fionread n None # after"
        using e a by simp
      then show ?thesis by blast
    qed
  next
    fix tail
    assume "\<forall>ev \<in> set tail. healthy ev" "\<forall>k \<le> length tail. \<not> has_ack ([] @ reads (take k tail))"
      "evs = tail"
    then have "(\<forall>s \<in> set []. answers s) \<and> length ([] :: char io_event list list) < length (l # kept)
        \<and> silent tail \<and> evs = concat [] @ tail"
      by (simp add: silent_def)
    then show ?thesis by blast
  next
    fix tail after
    assume "\<forall>ev \<in> set tail. healthy ev" "\<forall>k \<le> length tail. \<not> has_ack ([] @ reads (take k tail))"
      "evs = tail @ FionreadError # after"
    then have "(\<forall>s \<in> set []. answers s) \<and> length ([] :: char io_event list list) < length (l # kept)
        \<and> silent tail \<and> evs = concat [] @ tail @ FionreadError # after"
      by (simp add: silent_def)
    then show ?thesis by blast
  next
    fix tail n after
    assume "\<forall>ev \<in> set tail. healthy ev" "\<forall>k \<le> length tail. \<not> has_ack ([] @ reads (take k tail))"
      "0 < n" "evs = tail @ Fionread n None # after"
    then have "(\<forall>s \<in> set []. answers s) \<and> length ([] :: char io_event list list) < length (l # kept)
        \<and> silent tail \<and> 0 < n \<and> evs = concat [] @ tail @ Fionread n None # after"
      by (simp add: silent_def)
    then show ?thesis by blast
  qed
qed

text \<open>
  Claim C9. For every configuration script:
  \<^item> in every run, the lines written are kept lines (not empty, not beginning with \<open>%\<close>),
    as they are, in file order and without gaps; every write that is followed by another
    write was answered by a response that contains \<open>Done\<close> or \<open>Skipped\<close>; when the upload
    returns 1 all kept lines were written and all were answered;
  \<^item> when the port answers every kept line, the upload returns 1, having written exactly
    the kept lines, each paired with the bytes the port delivered up to the first
    \<open>Done\<close> or \<open>Skipped\<close>;
  \<^item> when the port answers only the first kept lines and then stays silent, fails the
    query or fails the read, the upload is still waiting, returns -1, or leaves the
    defined behaviour; it has written those lines and the next one and no further line,
    and the last response is what the port delivered since that write.
\<close>

theorem upload_filters_lines:
  "(sendConfigFile (Some configFileLines) evs = (res, exchanges) \<longrightarrow>
      (\<exists>rest. kept_lines configFileLines = map fst exchanges @ rest) \<and>
      (res = Returned 1 \<longrightarrow>
         map fst exchanges = kept_lines configFileLines \<and>
         (\<forall>x \<in> set exchanges. has_ack (snd x))) \<and>
      (\<forall>x \<in> set (butlast exchanges). has_ack (snd x))) \<and>
   ((\<forall>seg \<in> set segs. answers seg) \<and> length segs = length (kept_lines configFileLines) \<longrightarrow>
      sendConfigFile (Some configFileLines) (concat segs @ after)
        = (Returned 1, zip (kept_lines configFileLines) (map reads segs))) \<and>
   ((\<forall>seg \<in> set segs. answers seg) \<and> length segs < length (kept_lines configFileLines)
      \<and> silent tail \<longrightarrow>
      sendConfigFile (Some configFileLines) (concat segs @ tail)
        = (Blocked, zip (kept_lines configFileLines) (map reads (segs @ [tail]))) \<and>
      sendConfigFile (Some configFileLines) (concat segs @ tail @ FionreadError # after)
        = (Returned (- 1), zip (kept_lines configFileLines) (map reads (segs @ [tail]))) \<and>
      (0 < n \<longrightarrow>
         sendConfigFile (Some configFileLines) (concat segs @ tail @ Fionread n None # after)
           = (Faulted OutOfRange,
              zip (kept_lines configFileLines) (map reads (segs @ [tail])))))"
proof (intro conjI impI)
  assume "sendConfigFile (Some configFileLines) evs = (res, exchanges)"
  then have run: "send_lines configFileLines evs = (res, exchanges)"
    by (simp add: sendConfigFile_def)
  note log = send_lines_log_kept [OF run]
  from log show "\<exists>rest. kept_lines configFileLines = map fst exchanges @ rest" by blast
  from log show "\<forall>x \<in> set (butlast exchanges). has_ack (snd x)" by blast
  assume "res = Returned 1"
  with log show "map fst exchanges = kept_lines configFileLines" by blast
  from log \<open>res = Returned 1\<close> show "\<forall>x \<in> set exchanges. has_ack (snd x)" by blast
next
  assume "(\<forall>seg \<in> set segs. answers seg) \<and> length segs = length (kept_lines configFileLines)"
  then show "sendConfigFile (Some configFileLines) (concat segs @ after)
        = (Returned 1, zip (kept_lines configFileLines) (map reads segs))"
    by (simp add: sendConfigFile_def send_lines_all_answered)
next
  assume h: "(\<forall>seg \<in> set segs. answers seg) \<and> length segs < length (kept_lines configFileLines)
      \<and> silent tail"
  then have a: "\<forall>seg \<in> set segs. answers seg"
    and b: "length segs < length (kept_lines configFileLines)" and c: "silent tail" by blast+
  show "sendConfigFile (Some configFileLines) (concat segs @ tail)
        = (Blocked, zip (kept_lines configFileLines) (map reads (segs @ [tail])))"
    using send_lines_stopped(1) [OF a b c] by (simp add: sendConfigFile_def)
  show "sendConfigFile (Some configFileLines) (concat segs @ tail @ FionreadError # after)
        = (Returned (- 1), zip (kept_lines configFileLines) (map reads (segs @ [tail])))"
    using send_lines_stopped(2) [OF a b c] by (simp add: sendConfigFile_def)
  assume "0 < n"
  then show "sendConfigFile (Some configFileLines) (concat segs @ tail @ Fionread n None # after)
           = (Faulted OutOfRange,
              zip (kept_lines configFileLines) (map reads (segs @ [tail])))"
    using send_lines_stopped(3) [OF a b c] by (simp add: sendConfigFile_def)
qed

theorem upload_filters_lines_witness:
  "sendConfigFile (Some [''% comment'', [], ''sensorStop'', ''flushCfg''])
     (concat [[Fionread 0 (Some []), Fionread 2 (Some ''Do''), Fionread 3 (Some ''ne!'')],
              [Fionread 7 (Some ''Skipped'')]] @ [])
     = (Returned 1, [(''sensorStop'', ''Done!''), (''flushCfg'', ''Skipped'')]) \<and>
   sendConfigFile (Some [''% comment'', [], ''sensorStop'', ''flushCfg''])
     (concat [[Fionread 0 (Some []), Fionread 2 (Some ''Do''), Fionread 3 (Some ''ne!'')]]
        @ [Fionread 0 None, Fionread 2 (Some ''Do'')])
     = (Blocked, [(''sensorStop'', ''Done!''), (''flushCfg'', ''Do'')]) \<and>
   sendConfigFile (Some [''% comment'', [], ''sensorStop'', ''flushCfg''])
     (concat [[Fionread 0 (Some []), Fionread 2 (Some ''Do''), Fionread 3 (Some ''ne!'')]]
        @ [Fionread 0 None, Fionread 2 (Some ''Do'')] @ FionreadError # [])
     = (Returned (- 1), [(''sensorStop'', ''Done!''), (''flushCfg'', ''Do'')]) \<and>
   sendConfigFile (Some [''% comment'', [], ''sensorStop'', ''flushCfg''])
     (concat [[Fionread 0 (Some []), Fionread 2 (Some ''Do''), Fionread 3 (Some ''ne!'')]]
        @ [Fionread 0 None, Fionread 2 (Some ''Do'')] @ Fionread 5 None # [])
     = (Faulted OutOfRange, [(''sensorStop'', ''Done!''), (''flushCfg'', ''Do'')]) \<and>
   kept_lines [''% comment'', [], ''sensorStop'', ''flushCfg''] = [''sensorStop'', ''flushCfg''] \<and>
   has_ack ''Done!'' \<and> has_ack ''Skipped''"
proof -
  let ?L = "[''% comment'', [], ''sensorStop'', ''flushCfg'']"
  let ?seg1 = "[Fionread 0 (Some []), Fionread 2 (Some ''Do''), Fionread 3 (Some ''ne!'')]"
  let ?seg2 = "[Fionread 7 (Some ''Skipped'')]"
  let ?tail = "[Fionread 0 None, Fionread 2 (Some ''Do'')]"
  have k: "kept_lines ?L = [''sensorStop'', ''flushCfg'']" by (simp add: kept_lines_def)
  have a1: "answers ?seg1"
    by (simp add: answers_def has_ack_find reads_def All_less_Suc)
  have a2: "answers ?seg2"
    by (simp add: answers_def has_ack_find reads_def All_less_Suc)
  have s: "silent ?tail"
    by (simp add: silent_def has_ack_find reads_def le_Suc_eq all_conj_distrib)
  have all: "(\<forall>seg \<in> set [?seg1, ?seg2]. answers seg)
      \<and> length [?seg1, ?seg2] = length (kept_lines ?L)"
    using a1 a2 k by simp
  have one: "(\<forall>seg \<in> set [?seg1]. answers seg) \<and> length [?seg1] < length (kept_lines ?L)
      \<and> silent ?tail"
    using a1 s k by simp
  have pos: "(0::nat) < 5" by simp
  note full = upload_filters_lines
    [of ?L "concat [?seg1, ?seg2] @ []" "Returned 1"
        "[(''sensorStop'', ''Done!''), (''flushCfg'', ''Skipped'')]" "[?seg1, ?seg2]" "[]" ?tail 5]
  note part = upload_filters_lines
    [of ?L "[]" "Returned 1" "[]" "[?seg1]" "[]" ?tail 5]
  have r1: "sendConfigFile (Some ?L) (concat [?seg1, ?seg2] @ [])
      = (Returned 1, [(''sensorStop'', ''Done!''), (''flushCfg'', ''Skipped'')])"
    using full all by (simp add: k reads_def)
  have acks: "has_ack ''Done!'' \<and> has_ack ''Skipped''"
    using full r1 by simp
  have r2: "sendConfigFile (Some ?L) (concat [?seg1] @ ?tail)
      = (Blocked, [(''sensorStop'', ''Done!''), (''flushCfg'', ''Do'')])"
    and r3: "sendConfigFile (Some ?L) (concat [?seg1] @ ?tail @ FionreadError # [])
      = (Returned (- 1), [(''sensorStop'', ''Done!''), (''flushCfg'', ''Do'')])"
    and r4: "sendConfigFile (Some ?L) (concat [?seg1] @ ?tail @ Fionread 5 None # [])
      = (Faulted OutOfRange, [(''sensorStop'', ''Done!''), (''flushCfg'', ''Do'')])"
    using part one pos by (simp_all add: k reads_def)
  from r1 r2 r3 r4 k acks show ?thesis by blast
qed

end
